theory Spec2Isabelle
  imports Complex_Main
begin

section \<open>Nexus AI Gateway: routing and resilience engine\<close>

text \<open>
  A shallow embedding of the gateway's \<^verbatim>\<open>index.ts\<close>: the circuit breaker, the
  health scorer, the selector, the message validator, the chat handler with its in-flight
  counter, and the streaming and non-streaming failover loops.

  Conventions. JavaScript numbers that hold counters and millisecond timestamps are
  \<^typ>\<open>int\<close>; scores are \<^typ>\<open>real\<close> (the IEEE doubles of the source, idealised).
  Every call of \<^verbatim>\<open>Date.now()\<close> is an explicit argument \<open>now\<close>. An optional
  field (\<^verbatim>\<open>lastFailureTime?: number\<close>) is an \<^typ>\<open>int option\<close>, and the source's
  truthiness test on it (\<^verbatim>\<open>cb.lastFailureTime && ...\<close>) is \<open>truthy\<close>: a number is
  truthy when it is present and not zero. Mutation of a tracked service is explicit state
  passing: a function returns the updated record.
\<close>

subsection \<open>Configuration (CONFIG)\<close>

definition errorPenaltyDurationMs :: int where
  "errorPenaltyDurationMs = 30000"

definition minRequestsForScoring :: int where
  "minRequestsForScoring = 3"

definition failureThreshold :: int where
  "failureThreshold = 3"

definition resetTimeoutMs :: int where
  "resetTimeoutMs = 60000"

definition halfOpenMaxAttempts :: int where
  "halfOpenMaxAttempts = 1"

definition initialDelayMs :: int where
  "initialDelayMs = 100"

definition maxDelayMs :: int where
  "maxDelayMs = 2000"

definition multiplier :: int where
  "multiplier = 2"

subsection \<open>Data model\<close>

datatype CircuitState = CLOSED | OPEN | HALF_OPEN

record CircuitBreakerState =
  state :: CircuitState
  failures :: int
  lastFailureTime :: "int option"
  halfOpenAttempts :: int

datatype ProviderType = Groq | Gemini | OpenRouter | Cerebras

text \<open>Of an adapter the engine reads only its display name and its provider kind.\<close>

record AIService =
  name :: string
  provider :: ProviderType

record ServiceMetrics =
  totalRequests :: int
  successCount :: int
  failCount :: int
  totalLatencyMs :: int
  lastError :: "string option"
  lastErrorTime :: "int option"

record EnhancedTrackedService =
  service :: AIService
  metrics :: ServiceMetrics
  circuitBreaker :: CircuitBreakerState
  enabled :: bool

definition createInitialMetrics :: ServiceMetrics where
  "createInitialMetrics =
     \<lparr>totalRequests = 0, successCount = 0, failCount = 0, totalLatencyMs = 0,
      lastError = None, lastErrorTime = None\<rparr>"

definition createInitialCircuitBreaker :: CircuitBreakerState where
  "createInitialCircuitBreaker =
     \<lparr>state = CLOSED, failures = 0, lastFailureTime = None, halfOpenAttempts = 0\<rparr>"

text \<open>JavaScript truthiness of an optional number: \<^verbatim>\<open>undefined\<close> and \<^verbatim>\<open>0\<close> are falsy.\<close>

fun truthy :: "int option \<Rightarrow> bool" where
  "truthy None = False"
| "truthy (Some t) = (t \<noteq> 0)"

subsection \<open>Circuit breaker logic\<close>

text \<open>
  \<^verbatim>\<open>isServiceAvailable\<close> reads the clock once and may move the breaker from OPEN to
  HALF_OPEN; it returns the answer together with the tracked service as it leaves it.
\<close>

definition isServiceAvailable ::
    "int \<Rightarrow> EnhancedTrackedService \<Rightarrow> bool \<times> EnhancedTrackedService" where
  "isServiceAvailable now tracked =
     (let cb = circuitBreaker tracked in
      case state cb of
        CLOSED \<Rightarrow> (True, tracked)
      | OPEN \<Rightarrow>
          (if truthy (lastFailureTime cb) \<and> now - the (lastFailureTime cb) \<ge> resetTimeoutMs
           then (True, tracked\<lparr>circuitBreaker := cb\<lparr>state := HALF_OPEN, halfOpenAttempts := 0\<rparr>\<rparr>)
           else (False, tracked))
      | HALF_OPEN \<Rightarrow> (halfOpenAttempts cb < halfOpenMaxAttempts, tracked))"

definition recordSuccess :: "EnhancedTrackedService \<Rightarrow> EnhancedTrackedService" where
  "recordSuccess tracked =
     (let cb = circuitBreaker tracked in
      if state cb = HALF_OPEN
      then tracked\<lparr>circuitBreaker := cb\<lparr>state := CLOSED, failures := 0, halfOpenAttempts := 0\<rparr>\<rparr>
      else if state cb = CLOSED
      then tracked\<lparr>circuitBreaker := cb\<lparr>failures := max 0 (failures cb - 1)\<rparr>\<rparr>
      else tracked)"

definition recordFailure :: "int \<Rightarrow> EnhancedTrackedService \<Rightarrow> EnhancedTrackedService" where
  "recordFailure now tracked =
     (let cb = (circuitBreaker tracked)\<lparr>lastFailureTime := Some now\<rparr> in
      if state cb = HALF_OPEN
      then tracked\<lparr>circuitBreaker := cb\<lparr>state := OPEN, halfOpenAttempts := 0\<rparr>\<rparr>
      else if state cb = CLOSED
      then (let cb' = cb\<lparr>failures := failures cb + 1\<rparr> in
            if failures cb' \<ge> failureThreshold
            then tracked\<lparr>circuitBreaker := cb'\<lparr>state := OPEN\<rparr>\<rparr>
            else tracked\<lparr>circuitBreaker := cb'\<rparr>)
      else tracked\<lparr>circuitBreaker := cb\<rparr>)"

subsection \<open>Exponential backoff\<close>

definition calculateBackoffDelay :: "int \<Rightarrow> real" where
  "calculateBackoffDelay attempt =
     min (real_of_int initialDelayMs * real_of_int multiplier powi (attempt - 1))
         (real_of_int maxDelayMs)"

subsection \<open>Display names (the adapters' constructors)\<close>

text \<open>
  \<^verbatim>\<open>String.prototype.toLowerCase\<close> on the ASCII letters, and \<^verbatim>\<open>String.prototype.includes\<close>.
  (No character outside ASCII lower-cases to a letter of the three words searched for.)
\<close>

definition toLowerChar :: "char \<Rightarrow> char" where
  "toLowerChar c =
     (case map_of (zip ''ABCDEFGHIJKLMNOPQRSTUVWXYZ'' ''abcdefghijklmnopqrstuvwxyz'') c of
        Some l \<Rightarrow> l
      | None \<Rightarrow> c)"

definition toLowerCase :: "string \<Rightarrow> string" where
  "toLowerCase s = map toLowerChar s"

fun startsWith :: "string \<Rightarrow> string \<Rightarrow> bool" where
  "startsWith s [] = True"
| "startsWith [] (p # ps) = False"
| "startsWith (c # cs) (p # ps) = (c = p \<and> startsWith cs ps)"

fun includes_str :: "string \<Rightarrow> string \<Rightarrow> bool" where
  "includes_str [] sub = (sub = [])"
| "includes_str (c # cs) sub = (startsWith (c # cs) sub \<or> includes_str cs sub)"

text \<open>
  \<^verbatim>\<open>createService\<close> with the constructors of \<^verbatim>\<open>services/*.ts\<close>: every adapter is named
  \<^verbatim>\<open>${displayName} (Key #${instanceId})\<close>, and \<^verbatim>\<open>collectProviderKeys\<close> admits only
  instance ids made of decimal digits.
\<close>

fun displayName :: "ProviderType \<Rightarrow> string" where
  "displayName Groq = ''Groq''"
| "displayName Gemini = ''Gemini''"
| "displayName OpenRouter = ''OpenRouter''"
| "displayName Cerebras = ''Cerebras''"

definition createService :: "ProviderType \<Rightarrow> string \<Rightarrow> AIService" where
  "createService p instanceId =
     \<lparr>name = displayName p @ '' (Key #'' @ instanceId @ '')'', provider = p\<rparr>"

definition isInstanceId :: "string \<Rightarrow> bool" where
  "isInstanceId s = (s \<noteq> [] \<and> list_all (\<lambda>c. c \<in> set ''0123456789'') s)"

subsection \<open>Health-aware load balancer\<close>

fun priorityBonus :: "ProviderType \<Rightarrow> real" where
  "priorityBonus Cerebras = 0.15"
| "priorityBonus Groq = 0.10"
| "priorityBonus OpenRouter = 0.05"
| "priorityBonus Gemini = 0.00"

text \<open>The \<^verbatim>\<open>bonus\<close> of \<^verbatim>\<open>calculateHealthScore\<close>, read off the lower-cased display name.\<close>

definition bonus :: "AIService \<Rightarrow> real" where
  "bonus svc =
     (let providerName = toLowerCase (name svc) in
      if includes_str providerName ''cerebras'' then priorityBonus Cerebras
      else if includes_str providerName ''groq'' then priorityBonus Groq
      else if includes_str providerName ''openrouter'' then priorityBonus OpenRouter
      else priorityBonus Gemini)"

definition recentErrorPenalty :: "int \<Rightarrow> ServiceMetrics \<Rightarrow> real" where
  "recentErrorPenalty now m =
     (if truthy (lastErrorTime m)
      then (let timeSinceError = now - the (lastErrorTime m) in
            if timeSinceError < errorPenaltyDurationMs
            then 0.3 * (1 - real_of_int timeSinceError / real_of_int errorPenaltyDurationMs)
            else 0)
      else 0)"

definition calculateHealthScore :: "int \<Rightarrow> EnhancedTrackedService \<Rightarrow> real" where
  "calculateHealthScore now tracked =
     (let m = metrics tracked; cb = circuitBreaker tracked in
      if state cb = OPEN then 0
      else if state cb = HALF_OPEN then 0.1
      else if totalRequests m < minRequestsForScoring then 0.5 + bonus (service tracked)
      else
        (let successRate = real_of_int (successCount m) / real_of_int (totalRequests m);
             avgLatency = real_of_int (totalLatencyMs m) / real_of_int (totalRequests m);
             latencyScore = max 0 (1 - avgLatency / 5000)
         in max 0 (min 1 (successRate * 0.5 + latencyScore * 0.3 + bonus (service tracked)
                          - recentErrorPenalty now m))))"

text \<open>The process-wide state of \<^verbatim>\<open>index.ts\<close>.\<close>

record Gateway =
  trackedServices :: "EnhancedTrackedService list"
  roundRobinPointer :: nat
  inFlightRequests :: int
  isShuttingDown :: bool

datatype RoutingMode = Smart | Fastest | RoundRobin

text \<open>
  The \<^verbatim>\<open>map\<close>/\<^verbatim>\<open>filter\<close> of \<^verbatim>\<open>getNextService\<close>: the indices, in order, of the
  services that are not excluded, are enabled and whose breaker reports available. The
  breaker is asked only when the first two tests pass, and asking may move it to
  HALF_OPEN, so the pool is returned as well.
\<close>

fun available ::
    "int \<Rightarrow> nat set \<Rightarrow> nat \<Rightarrow> EnhancedTrackedService list
      \<Rightarrow> nat list \<times> EnhancedTrackedService list" where
  "available now excludeIndices i [] = ([], [])"
| "available now excludeIndices i (ts # rest) =
     (let (ok, ts') = (if i \<notin> excludeIndices \<and> enabled ts
                       then isServiceAvailable now ts else (False, ts));
          (idxs, rest') = available now excludeIndices (Suc i) rest
      in (if ok then i # idxs else idxs, ts' # rest'))"

text \<open>The weighted draw of the smart mode; \<open>None\<close> when the loop falls through.\<close>

fun weightedPick :: "real \<Rightarrow> (nat \<times> real) list \<Rightarrow> nat option" where
  "weightedPick random [] = None"
| "weightedPick random ((i, score) # rest) =
     (let random' = random - max 0.1 score in
      if random' \<le> 0 then Some i else weightedPick random' rest)"

text \<open>
  \<^verbatim>\<open>getNextService\<close>. The source returns the tracked object and its caller finds the
  index again with \<^verbatim>\<open>indexOf\<close>; the model returns the index. \<open>rnd\<close> is the value of
  \<^verbatim>\<open>Math.random()\<close>. \<^verbatim>\<open>Array.prototype.sort\<close> is stable, as \<^const>\<open>sort_key\<close> is.
\<close>

definition getNextService ::
    "int \<Rightarrow> real \<Rightarrow> nat set \<Rightarrow> RoutingMode \<Rightarrow> Gateway \<Rightarrow> nat option \<times> Gateway" where
  "getNextService now rnd excludeIndices routingMode g =
     (let (avail, pool') = available now excludeIndices 0 (trackedServices g);
          g' = g\<lparr>trackedServices := pool'\<rparr>
      in case avail of
           [] \<Rightarrow> (None, g')
         | [i] \<Rightarrow> (Some i, g')
         | _ \<Rightarrow>
           if routingMode = RoundRobin
           then (let sorted = sort avail in
                 (Some (sorted ! (roundRobinPointer g mod length sorted)),
                  g'\<lparr>roundRobinPointer := (roundRobinPointer g + 1) mod length pool'\<rparr>))
           else
             (let scored = sort_key (\<lambda>(i, score). - score)
                             (map (\<lambda>i. (i, calculateHealthScore now (pool' ! i))) avail)
              in if routingMode = Fastest then (Some (fst (hd scored)), g')
                 else (let totalScore = sum_list (map (\<lambda>(i, score). max 0.1 score) scored) in
                       case weightedPick (rnd * totalScore) scored of
                         Some i \<Rightarrow> (Some i, g')
                       | None \<Rightarrow> (Some (fst (hd scored)), g'))))"

subsection \<open>The streaming failover loop\<close>

text \<open>
  What the loop cannot decide itself is its environment, given per loop iteration:
  the value of \<^verbatim>\<open>Math.random()\<close>, how late a timer fires, what the adapter's generator
  does, how long it takes, and when the client goes away. A client can go away in two
  ways: the request's abort signal fires (\<^verbatim>\<open>onAbort\<close>: \<^verbatim>\<open>aborted = true\<close>), or the
  response stream is cancelled (\<^verbatim>\<open>cancel()\<close>: \<^verbatim>\<open>aborted = true\<close> and
  \<^verbatim>\<open>decrementInFlight()\<close>). Both can only happen while the loop awaits.
\<close>

datatype Interrupt = RequestAbort | StreamCancel

datatype GenResult = Yield string | Return | Throw string

datatype StreamEvent = Chunk string | Interrupted Interrupt

record AttemptEnv =
  random :: real
  sleepLate :: nat
  duringSleep :: "Interrupt list"
  firstWait :: nat
  duringFirst :: "Interrupt list"
  firstResult :: GenResult
  restEvents :: "StreamEvent list"
  restEnd :: "string option"
  restWait :: nat

text \<open>
  \<open>firstResult\<close> is what awaiting the first \<^verbatim>\<open>gen.next()\<close> gives (\<open>Throw\<close>: the await
  rejects, as it does when the adapter fails before its first chunk). \<open>restEvents\<close> is what
  \<^verbatim>\<open>for await (const chunk of gen)\<close> meets, in order; when it is used up the generator
  returns (\<open>restEnd = None\<close>) or throws (\<open>restEnd = Some msg\<close>).

  The state of one request. \<open>gw\<close> is the process-wide state; \<open>triedIndices\<close>,
  \<open>attemptNumber\<close>, \<open>started\<close>, \<open>aborted\<close> and \<open>hasDecrementedInFlight\<close> are the
  request's variables; \<open>clock\<close> is \<^verbatim>\<open>Date.now()\<close>; \<open>running\<close> says that the
  \<^verbatim>\<open>while\<close> loop has not been left. The last five fields are observations added by the
  model and read by no decision: the indices whose adapter was called, the indices whose
  \<^verbatim>\<open>successCount\<close> this request incremented, the numbers of calls of
  \<^verbatim>\<open>getNextService\<close> and of \<^verbatim>\<open>sleep\<close>, and whether the client has gone away at a
  moment when \<open>started\<close> was false.
\<close>

record StreamState =
  gw :: Gateway
  triedIndices :: "nat set"
  attemptNumber :: int
  started :: bool
  aborted :: bool
  hasDecrementedInFlight :: bool
  clock :: int
  running :: bool
  dispatched :: "nat list"
  successes :: "nat list"
  selectorCalls :: nat
  sleeps :: nat
  cancelledBeforeCommit :: bool

definition decrementInFlight :: "StreamState \<Rightarrow> StreamState" where
  "decrementInFlight s =
     (if \<not> hasDecrementedInFlight s
      then s\<lparr>hasDecrementedInFlight := True,
             gw := (gw s)\<lparr>inFlightRequests := inFlightRequests (gw s) - 1\<rparr>\<rparr>
      else s)"

fun interrupt :: "Interrupt \<Rightarrow> StreamState \<Rightarrow> StreamState" where
  "interrupt RequestAbort s =
     s\<lparr>aborted := True, cancelledBeforeCommit := cancelledBeforeCommit s \<or> \<not> started s\<rparr>"
| "interrupt StreamCancel s =
     decrementInFlight
       (s\<lparr>aborted := True, cancelledBeforeCommit := cancelledBeforeCommit s \<or> \<not> started s\<rparr>)"

definition interrupts :: "Interrupt list \<Rightarrow> StreamState \<Rightarrow> StreamState" where
  "interrupts is s = foldl (\<lambda>s' i. interrupt i s') s is"

text \<open>\<^verbatim>\<open>await sleep(ms)\<close>: the timer fires after \<open>ms\<close> (whole milliseconds) or later.\<close>

definition sleep :: "real \<Rightarrow> AttemptEnv \<Rightarrow> StreamState \<Rightarrow> StreamState" where
  "sleep ms e s =
     (interrupts (duringSleep e) s)
       \<lparr>clock := clock s + \<lfloor>ms\<rfloor> + int (sleepLate e), sleeps := sleeps s + 1\<rparr>"

definition updateTracked ::
    "nat \<Rightarrow> (EnhancedTrackedService \<Rightarrow> EnhancedTrackedService) \<Rightarrow> Gateway \<Rightarrow> Gateway" where
  "updateTracked i f g =
     g\<lparr>trackedServices := (trackedServices g)[i := f (trackedServices g ! i)]\<rparr>"

text \<open>The bookkeeping before the adapter is called, and the two blocks after it.\<close>

definition beginAttempt :: "bool \<Rightarrow> EnhancedTrackedService \<Rightarrow> EnhancedTrackedService" where
  "beginAttempt trackHalfOpen tracked =
     (let cb = circuitBreaker tracked;
          t1 = (if trackHalfOpen \<and> state cb = HALF_OPEN
                then tracked\<lparr>circuitBreaker := cb\<lparr>halfOpenAttempts := halfOpenAttempts cb + 1\<rparr>\<rparr>
                else tracked)
      in t1\<lparr>metrics := (metrics t1)\<lparr>totalRequests := totalRequests (metrics t1) + 1\<rparr>\<rparr>)"

definition onSuccess :: "int \<Rightarrow> int \<Rightarrow> EnhancedTrackedService \<Rightarrow> EnhancedTrackedService" where
  "onSuccess startTime now tracked =
     recordSuccess
       (tracked\<lparr>metrics := (metrics tracked)
          \<lparr>successCount := successCount (metrics tracked) + 1,
           totalLatencyMs := totalLatencyMs (metrics tracked) + (now - startTime)\<rparr>\<rparr>)"

definition onFailure ::
    "string \<Rightarrow> int \<Rightarrow> int \<Rightarrow> EnhancedTrackedService \<Rightarrow> EnhancedTrackedService" where
  "onFailure errorMsg startTime now tracked =
     recordFailure now
       (tracked\<lparr>metrics := (metrics tracked)
          \<lparr>failCount := failCount (metrics tracked) + 1,
           lastError := Some errorMsg,
           lastErrorTime := Some now,
           totalLatencyMs := totalLatencyMs (metrics tracked) + (now - startTime)\<rparr>\<rparr>)"

definition success :: "nat \<Rightarrow> int \<Rightarrow> StreamState \<Rightarrow> StreamState" where
  "success serviceIndex startTime s =
     s\<lparr>gw := updateTracked serviceIndex (onSuccess startTime (clock s)) (gw s),
       successes := successes s @ [serviceIndex]\<rparr>"

text \<open>The \<^verbatim>\<open>catch\<close> block of an attempt: record the failure, leave the loop if committed.\<close>

definition catchError :: "string \<Rightarrow> nat \<Rightarrow> int \<Rightarrow> StreamState \<Rightarrow> StreamState" where
  "catchError errorMsg serviceIndex startTime s =
     (let s' = s\<lparr>gw := updateTracked serviceIndex (onFailure errorMsg startTime (clock s)) (gw s)\<rparr>
      in if started s' then s'\<lparr>running := False\<rparr> else s')"

text \<open>
  \<^verbatim>\<open>for await (const chunk of gen) { if (aborted) break; if (chunk) { ... } }\<close>.
  The result says whether the generator was used up or the loop was left by \<^verbatim>\<open>break\<close>.
\<close>

datatype LoopExit = Exhausted | Broke

fun forAwait :: "StreamEvent list \<Rightarrow> StreamState \<Rightarrow> LoopExit \<times> StreamState" where
  "forAwait [] s = (Exhausted, s)"
| "forAwait (Interrupted i # es) s = forAwait es (interrupt i s)"
| "forAwait (Chunk chunk # es) s =
     (if aborted s then (Broke, s)
      else forAwait es (if chunk \<noteq> [] then s\<lparr>started := True\<rparr> else s))"

text \<open>The \<^verbatim>\<open>try\<close> block of an attempt, from the call of the adapter on.\<close>

definition streamAttempt :: "AttemptEnv \<Rightarrow> nat \<Rightarrow> int \<Rightarrow> StreamState \<Rightarrow> StreamState" where
  "streamAttempt e serviceIndex startTime s =
     (let s1 = (interrupts (duringFirst e) s)\<lparr>clock := clock s + int (firstWait e)\<rparr> in
      case firstResult e of
        Throw errorMsg \<Rightarrow> catchError errorMsg serviceIndex startTime s1
      | Return \<Rightarrow>
          if aborted s1 then s1\<lparr>running := False\<rparr>
          else (success serviceIndex startTime (s1\<lparr>started := True\<rparr>))\<lparr>running := False\<rparr>
      | Yield v \<Rightarrow>
          if aborted s1 then s1\<lparr>running := False\<rparr>
          else
            (let s2 = (if v \<noteq> [] then s1\<lparr>started := True\<rparr> else s1);
                 (exit, s3) = forAwait (restEvents e) s2;
                 s4 = s3\<lparr>clock := clock s3 + int (restWait e)\<rparr>
             in if exit = Exhausted \<and> restEnd e \<noteq> None
                then catchError (the (restEnd e)) serviceIndex startTime s4
                else if started s4
                then (success serviceIndex startTime s4)\<lparr>running := False\<rparr>
                else s4))"

text \<open>
  \<^verbatim>\<open>trackedServices.some((ts, idx) => !triedIndices.has(idx) && isServiceAvailable(ts))\<close>:
  it stops at the first service that answers true.
\<close>

fun reprobe ::
    "int \<Rightarrow> nat set \<Rightarrow> nat \<Rightarrow> EnhancedTrackedService list
      \<Rightarrow> bool \<times> EnhancedTrackedService list" where
  "reprobe now tried i [] = (False, [])"
| "reprobe now tried i (ts # rest) =
     (let (ok, ts') = (if i \<notin> tried then isServiceAvailable now ts else (False, ts)) in
      if ok then (True, ts' # rest)
      else (let (r, rest') = reprobe now tried (Suc i) rest in (r, ts' # rest')))"

text \<open>One pass through the body of the \<^verbatim>\<open>while\<close> loop.\<close>

definition loopBody :: "RoutingMode \<Rightarrow> AttemptEnv \<Rightarrow> StreamState \<Rightarrow> StreamState" where
  "loopBody routingMode e s =
     (let (tracked, g1) = getNextService (clock s) (random e) (triedIndices s) routingMode (gw s);
          s1 = s\<lparr>gw := g1, selectorCalls := selectorCalls s + 1\<rparr>
      in case tracked of
           None \<Rightarrow>
             if attemptNumber s1 > 0
             then (let s2 = sleep (calculateBackoffDelay (attemptNumber s1)) e s1;
                       (reopened, pool') =
                          reprobe (clock s2) (triedIndices s2) 0 (trackedServices (gw s2));
                       s3 = s2\<lparr>gw := (gw s2)\<lparr>trackedServices := pool'\<rparr>\<rparr>
                   in if \<not> reopened then s3\<lparr>running := False\<rparr> else s3)
             else s1\<lparr>running := False\<rparr>
         | Some serviceIndex \<Rightarrow>
             (let s2 = s1\<lparr>attemptNumber := attemptNumber s1 + 1,
                         triedIndices := insert serviceIndex (triedIndices s1)\<rparr>;
                  s3 = (if attemptNumber s2 > 1
                        then sleep (calculateBackoffDelay (attemptNumber s2 - 1)) e s2
                        else s2);
                  startTime = clock s3;
                  s4 = s3\<lparr>gw := updateTracked serviceIndex (beginAttempt True) (gw s3),
                          dispatched := dispatched s3 @ [serviceIndex]\<rparr>
              in streamAttempt e serviceIndex startTime s4))"

definition loopCond :: "StreamState \<Rightarrow> bool" where
  "loopCond s = (card (triedIndices s) < length (trackedServices (gw s)) \<and> \<not> aborted s)"

text \<open>
  A step tests the loop's condition and, when it holds, runs the body once. A state that
  has left the loop stays as it is. \<open>run\<close> takes one step per element of the script.
\<close>

definition step :: "RoutingMode \<Rightarrow> AttemptEnv \<Rightarrow> StreamState \<Rightarrow> StreamState" where
  "step routingMode e s =
     (if \<not> running s then s
      else if \<not> loopCond s then s\<lparr>running := False\<rparr>
      else loopBody routingMode e s)"

definition run :: "RoutingMode \<Rightarrow> AttemptEnv list \<Rightarrow> StreamState \<Rightarrow> StreamState" where
  "run routingMode es s = foldl (\<lambda>s' e. step routingMode e s') s es"

definition startRequest :: "int \<Rightarrow> Gateway \<Rightarrow> StreamState" where
  "startRequest now g =
     \<lparr>gw = g, triedIndices = {}, attemptNumber = 0, started = False, aborted = False,
      hasDecrementedInFlight = False, clock = now, running = True,
      dispatched = [], successes = [], selectorCalls = 0, sleeps = 0,
      cancelledBeforeCommit = False\<rparr>"

text \<open>
  The whole of \<^verbatim>\<open>start(controller)\<close>: the loop, then the \<^verbatim>\<open>finally\<close> block.
  \<open>None\<close>: the loop has not been left when the script is used up.
\<close>

definition streamStart ::
    "RoutingMode \<Rightarrow> AttemptEnv list \<Rightarrow> StreamState \<Rightarrow> StreamState option" where
  "streamStart routingMode es s =
     (let s' = run routingMode es s in
      if running s' then None else Some (decrementInFlight s'))"

subsection \<open>The non-streaming failover loop\<close>

datatype CompletionResult = Completed | Failed string

record CompletionEnv =
  nsRandom :: real
  nsSleepLate :: nat
  nsResult :: CompletionResult
  nsWait :: nat

text \<open>
  The loop of the \<^verbatim>\<open>if (!streamRequested)\<close> branch, with its own \<^verbatim>\<open>triedIndices\<close> and
  \<^verbatim>\<open>attemptNumber\<close>. It returns the status of the response and the process-wide state;
  \<open>None\<close>: the script is used up before the loop is left.
\<close>

fun nonStreamLoop ::
    "RoutingMode \<Rightarrow> CompletionEnv list \<Rightarrow> nat set \<Rightarrow> int \<Rightarrow> int \<Rightarrow> Gateway
      \<Rightarrow> (nat \<times> Gateway) option" where
  "nonStreamLoop routingMode [] tried attemptNo now g =
     (if card tried < length (trackedServices g) then None else Some (502, g))"
| "nonStreamLoop routingMode (e # es) tried attemptNo now g =
     (if \<not> card tried < length (trackedServices g) then Some (502, g)
      else
        (case getNextService now (nsRandom e) tried routingMode g of
           (None, g1) \<Rightarrow> Some (502, g1)
         | (Some serviceIndex, g1) \<Rightarrow>
             (let attemptNo' = attemptNo + 1;
                  tried' = insert serviceIndex tried;
                  startTime = (if attemptNo' > 1
                               then now + \<lfloor>calculateBackoffDelay (attemptNo' - 1)\<rfloor>
                                        + int (nsSleepLate e)
                               else now);
                  g2 = updateTracked serviceIndex (beginAttempt False) g1;
                  now' = startTime + int (nsWait e)
              in case nsResult e of
                   Completed \<Rightarrow> Some (200, updateTracked serviceIndex (onSuccess startTime now') g2)
                 | Failed errorMsg \<Rightarrow>
                     nonStreamLoop routingMode es tried' attemptNo' now'
                       (updateTracked serviceIndex (onFailure errorMsg startTime now') g2))))"

subsection \<open>Message validation\<close>

text \<open>
  The values \<^verbatim>\<open>JSON.parse\<close> returns. An object keeps its members in the order of the
  text; of a repeated key the last member counts.
\<close>

datatype json =
    JNull
  | JBool bool
  | JNumber real
  | JString string
  | JArray "json list"
  | JObject "(string \<times> json) list"

text \<open>
  Reading a property of a value that is not \<^verbatim>\<open>null\<close>: \<open>None\<close> is \<^verbatim>\<open>undefined\<close>. Only
  the names \<^verbatim>\<open>role\<close>, \<^verbatim>\<open>content\<close>, \<^verbatim>\<open>type\<close>, \<^verbatim>\<open>text\<close>, \<^verbatim>\<open>image_url\<close>,
  \<^verbatim>\<open>messages\<close>, \<^verbatim>\<open>stream\<close>, \<^verbatim>\<open>name\<close> and \<^verbatim>\<open>enabled\<close> are read, which arrays,
  strings, numbers and booleans do not have.
\<close>

fun getProp :: "json \<Rightarrow> string \<Rightarrow> json option" where
  "getProp (JObject members) key = map_of (rev members) key"
| "getProp v key = None"

fun jsTruthy :: "json \<Rightarrow> bool" where
  "jsTruthy JNull = False"
| "jsTruthy (JBool b) = b"
| "jsTruthy (JNumber n) = (n \<noteq> 0)"
| "jsTruthy (JString s) = (s \<noteq> [])"
| "jsTruthy (JArray xs) = True"
| "jsTruthy (JObject members) = True"

text \<open>\<^verbatim>\<open>typeof v === 'object'\<close>.\<close>

fun typeofObject :: "json \<Rightarrow> bool" where
  "typeofObject JNull = True"
| "typeofObject (JArray xs) = True"
| "typeofObject (JObject members) = True"
| "typeofObject v = False"

definition validRoles :: "string list" where
  "validRoles = [''system'', ''user'', ''assistant'']"

text \<open>The callback of \<^verbatim>\<open>msg.content.every\<close>.\<close>

definition isValidPart :: "json \<Rightarrow> bool" where
  "isValidPart part =
     (if \<not> jsTruthy part \<or> \<not> typeofObject part then False
      else if getProp part ''type'' = Some (JString ''text'')
              \<and> (case getProp part ''text'' of Some (JString t) \<Rightarrow> True | _ \<Rightarrow> False)
      then True
      else if getProp part ''type'' = Some (JString ''image_url'')
              \<and> (case getProp part ''image_url'' of
                    Some u \<Rightarrow> jsTruthy u \<and> typeofObject u
                  | None \<Rightarrow> False)
      then True
      else False)"

definition isValidMessage :: "json \<Rightarrow> bool" where
  "isValidMessage m =
     (if \<not> jsTruthy m \<or> \<not> typeofObject m then False
      else if \<not> (case getProp m ''role'' of
                    Some (JString r) \<Rightarrow> r \<in> set validRoles
                  | _ \<Rightarrow> False)
      then False
      else case getProp m ''content'' of
             Some (JString c) \<Rightarrow> True
           | Some (JArray parts) \<Rightarrow> list_all isValidPart parts
           | _ \<Rightarrow> False)"

subsection \<open>The server\<close>

text \<open>
  Of a request the handler reads the method, the path, two headers and the body
  (\<open>reqBody = None\<close>: \<^verbatim>\<open>req.json()\<close> throws). Of a response the model keeps the status,
  the headers other than the CORS ones, and the \<^verbatim>\<open>type\<close> of an error payload.
\<close>

record Request =
  reqMethod :: string
  reqPathname :: string
  reqAuthorization :: "string option"
  reqRoutingMode :: "string option"
  reqBody :: "json option"

record Response =
  status :: nat
  headers :: "(string \<times> string) list"
  errorType :: "string option"

definition jsonError :: "nat \<Rightarrow> string \<Rightarrow> Response" where
  "jsonError code ty =
     \<lparr>status = code, headers = [(''Content-Type'', ''application/json'')], errorType = Some ty\<rparr>"

definition jsonOk :: Response where
  "jsonOk = \<lparr>status = 200, headers = [(''Content-Type'', ''application/json'')], errorType = None\<rparr>"

definition eventStream :: Response where
  "eventStream =
     \<lparr>status = 200,
      headers = [(''Content-Type'', ''text/event-stream; charset=utf-8''),
                 (''Cache-Control'', ''no-cache''), (''Connection'', ''keep-alive''),
                 (''X-Accel-Buffering'', ''no'')],
      errorType = None\<rparr>"

definition shuttingDownResponse :: Response where
  "shuttingDownResponse =
     \<lparr>status = 503,
      headers = [(''Content-Type'', ''application/json''), (''Retry-After'', ''30'')],
      errorType = Some ''service_unavailable''\<rparr>"

text \<open>The environment of one call of \<^verbatim>\<open>fetch\<close>.\<close>

record FetchEnv =
  masterKey :: string
  arrival :: int
  streamScript :: "AttemptEnv list"
  completionScript :: "CompletionEnv list"

definition routingModeOf :: "string option \<Rightarrow> RoutingMode" where
  "routingModeOf h =
     (let routingModeHeader =
            toLowerCase (case h of None \<Rightarrow> ''smart'' | Some v \<Rightarrow> if v = [] then ''smart'' else v)
      in if routingModeHeader = ''fastest'' then Fastest
         else if routingModeHeader = ''round-robin'' then RoundRobin
         else Smart)"

text \<open>\<^verbatim>\<open>trackedServices.map(ts => ... ts.enabled && isServiceAvailable(ts))\<close> of the models endpoint.\<close>

definition modelsProbe :: "int \<Rightarrow> EnhancedTrackedService \<Rightarrow> EnhancedTrackedService" where
  "modelsProbe now ts = (if enabled ts then snd (isServiceAvailable now ts) else ts)"

text \<open>The toggle endpoint: enable or disable the first service of the given display name.\<close>

fun setEnabled ::
    "string \<Rightarrow> bool \<Rightarrow> EnhancedTrackedService list \<Rightarrow> EnhancedTrackedService list option" where
  "setEnabled n b [] = None"
| "setEnabled n b (ts # rest) =
     (if name (service ts) = n then Some (ts\<lparr>enabled := b\<rparr> # rest)
      else map_option ((#) ts) (setEnabled n b rest))"

definition toggle :: "json option \<Rightarrow> Gateway \<Rightarrow> Response \<times> Gateway" where
  "toggle body g =
     (case body of
        None \<Rightarrow> (jsonError 400 ''invalid_request_error'', g)
      | Some b \<Rightarrow>
          (case (if b = JNull then None else getProp b ''name'', getProp b ''enabled'') of
             (Some n, Some (JBool en)) \<Rightarrow>
               if \<not> jsTruthy n then (jsonError 400 ''invalid_request_error'', g)
               else (case n of
                       JString nm \<Rightarrow>
                         (case setEnabled nm en (trackedServices g) of
                            None \<Rightarrow> (jsonError 404 ''not_found'', g)
                          | Some pool' \<Rightarrow> (jsonOk, g\<lparr>trackedServices := pool'\<rparr>))
                     | _ \<Rightarrow> (jsonError 404 ''not_found'', g))
           | _ \<Rightarrow> (jsonError 400 ''invalid_request_error'', g)))"

text \<open>
  The chat branch of \<^verbatim>\<open>fetch\<close>, from \<^verbatim>\<open>inFlightRequests++\<close> on, in two parts: what
  follows the validation of the messages (\<open>failover\<close>, which takes the state after the
  increment), and the whole branch. For a streaming request the result is the response
  together with the state in which \<^verbatim>\<open>start(controller)\<close> ends; \<open>None\<close>: a loop has not
  been left when its script is used up.
\<close>

definition failover ::
    "FetchEnv \<Rightarrow> Request \<Rightarrow> json \<Rightarrow> Gateway \<Rightarrow> (Response \<times> Gateway) option" where
  "failover env req body g =
     (let routingMode = routingModeOf (reqRoutingMode req);
          streamRequested = (getProp body ''stream'' \<noteq> Some (JBool False))
      in if \<not> streamRequested
         then (case nonStreamLoop routingMode (completionScript env) {} 0 (arrival env) g of
                 None \<Rightarrow> None
               | Some (code, g') \<Rightarrow>
                   Some (if code = 200 then jsonOk else jsonError code ''gateway_error'', g'))
         else (case streamStart routingMode (streamScript env) (startRequest (arrival env) g) of
                 None \<Rightarrow> None
               | Some s \<Rightarrow> Some (eventStream, gw s)))"

definition chatCompletions :: "FetchEnv \<Rightarrow> Request \<Rightarrow> Gateway \<Rightarrow> (Response \<times> Gateway) option" where
  "chatCompletions env req g0 =
     (let g = g0\<lparr>inFlightRequests := inFlightRequests g0 + 1\<rparr>;
          decremented = g\<lparr>inFlightRequests := inFlightRequests g - 1\<rparr>
      in case reqBody req of
           None \<Rightarrow> Some (jsonError 500 ''internal_error'', decremented)
         | Some JNull \<Rightarrow> Some (jsonError 500 ''internal_error'', decremented)
         | Some body \<Rightarrow>
             (case getProp body ''messages'' of
                Some (JArray messages) \<Rightarrow>
                  if \<not> list_all isValidMessage messages
                  then Some (jsonError 400 ''invalid_request_error'', decremented)
                  else failover env req body g
              | _ \<Rightarrow> Some (jsonError 400 ''invalid_request_error'', decremented)))"

definition fetch :: "FetchEnv \<Rightarrow> Request \<Rightarrow> Gateway \<Rightarrow> (Response \<times> Gateway) option" where
  "fetch env req g =
     (if isShuttingDown g then Some (shuttingDownResponse, g)
      else if reqMethod req = ''OPTIONS''
      then Some (\<lparr>status = 200, headers = [], errorType = None\<rparr>, g)
      else if masterKey env \<noteq> [] \<and> reqPathname req \<noteq> ''/health''
              \<and> reqAuthorization req \<noteq> Some (''Bearer '' @ masterKey env)
      then Some (jsonError 401 ''authentication_error'', g)
      else if reqMethod req = ''POST'' \<and> reqPathname req = ''/v1/providers/toggle''
      then Some (toggle (reqBody req) g)
      else if reqMethod req = ''GET'' \<and> reqPathname req = ''/health''
      then Some (jsonOk, g)
      else if reqMethod req = ''GET'' \<and> reqPathname req = ''/v1/models''
      then Some (jsonOk, g\<lparr>trackedServices := map (modelsProbe (arrival env)) (trackedServices g)\<rparr>)
      else if reqMethod req = ''POST'' \<and> reqPathname req = ''/v1/chat/completions''
      then chatCompletions env req g
      else Some (\<lparr>status = 404, headers = [], errorType = None\<rparr>, g))"

subsection \<open>Reference definitions and example values\<close>

text \<open>The \<open>clamp\<close> of the specification's formulas.\<close>

definition clamp :: "real \<Rightarrow> real \<Rightarrow> real \<Rightarrow> real" where
  "clamp x lo hi = max lo (min hi x)"

text \<open>What the initialisation loop pushes for one configured key.\<close>

definition newTracked :: "ProviderType \<Rightarrow> string \<Rightarrow> EnhancedTrackedService" where
  "newTracked p instanceId =
     \<lparr>service = createService p instanceId, metrics = createInitialMetrics,
      circuitBreaker = createInitialCircuitBreaker, enabled = True\<rparr>"

definition newGateway :: "EnhancedTrackedService list \<Rightarrow> Gateway" where
  "newGateway pool =
     \<lparr>trackedServices = pool, roundRobinPointer = 0, inFlightRequests = 0,
      isShuttingDown = False\<rparr>"

text \<open>A tracked service with a given breaker, for the examples.\<close>

definition withBreaker ::
    "CircuitState \<Rightarrow> int \<Rightarrow> int option \<Rightarrow> int \<Rightarrow> EnhancedTrackedService" where
  "withBreaker st f lft hoa =
     (newTracked Groq ''1'')
       \<lparr>circuitBreaker := \<lparr>state = st, failures = f, lastFailureTime = lft, halfOpenAttempts = hoa\<rparr>\<rparr>"

text \<open>
  An invariant of the breaker: an OPEN breaker carries a timestamp, the (non-zero) time
  of the failure that opened it.
\<close>

definition timestamped :: "EnhancedTrackedService \<Rightarrow> bool" where
  "timestamped t =
     (state (circuitBreaker t) \<noteq> OPEN \<or> truthy (lastFailureTime (circuitBreaker t)))"

text \<open>A number of consecutive selections with the same arguments.\<close>

fun consecutive ::
    "nat \<Rightarrow> int \<Rightarrow> real \<Rightarrow> nat set \<Rightarrow> RoutingMode \<Rightarrow> Gateway \<Rightarrow> nat option list \<times> Gateway" where
  "consecutive 0 now rnd excludeIndices routingMode g = ([], g)"
| "consecutive (Suc k) now rnd excludeIndices routingMode g =
     (let (r, g') = getNextService now rnd excludeIndices routingMode g;
          (rs, g'') = consecutive k now rnd excludeIndices routingMode g'
      in (r # rs, g''))"

text \<open>Three tracked services, the second one disabled by the toggle endpoint.\<close>

definition threeWithOneDisabled :: Gateway where
  "threeWithOneDisabled =
     newGateway [newTracked Cerebras ''1'', (newTracked Groq ''1'')\<lparr>enabled := False\<rparr>,
                 newTracked Gemini ''1'']"

text \<open>
  An attempt in which no client goes away: the first result, the later stream events and
  the way the generator ends are given, the timings are fixed.
\<close>

definition attemptEnv :: "GenResult \<Rightarrow> StreamEvent list \<Rightarrow> string option \<Rightarrow> AttemptEnv" where
  "attemptEnv r evs ending =
     \<lparr>random = 0.5, sleepLate = 0, duringSleep = [], firstWait = 10, duringFirst = [],
      firstResult = r, restEvents = evs, restEnd = ending, restWait = 5\<rparr>"

text \<open>An attempt whose first result is a rejection: no chunk arrives.\<close>

definition timeoutEnv :: AttemptEnv where
  "timeoutEnv = (attemptEnv (Throw ''First token timeout after 8000ms'') [] None)\<lparr>firstWait := 8000\<rparr>"

text \<open>Two tracked services, the second one disabled by the toggle endpoint.\<close>

definition twoWithOneDisabled :: Gateway where
  "twoWithOneDisabled =
     newGateway [newTracked Groq ''1'', (newTracked Gemini ''1'')\<lparr>enabled := False\<rparr>]"

text \<open>
  The states in which the first service has been tried and the second, untried one is
  disabled with a CLOSED breaker.
\<close>

definition stuck :: "StreamState \<Rightarrow> bool" where
  "stuck s =
     (running s \<and> \<not> aborted s \<and> 0 < attemptNumber s \<and> triedIndices s = {0}
      \<and> (\<exists>a b. trackedServices (gw s) = [a, b] \<and> \<not> enabled b
                 \<and> state (circuitBreaker b) = CLOSED))"

subsection \<open>The invariant of a streaming request\<close>

text \<open>The success counters of the pool, by index.\<close>

definition successCounts :: "Gateway \<Rightarrow> int list" where
  "successCounts g = map (\<lambda>t. successCount (metrics t)) (trackedServices g)"

text \<open>
  What holds of a request that started on the process-wide state \<open>g\<close>, after every
  pass of the loop: the pool keeps its length; the adapters called are exactly the tried
  indices, each called once; a committed request has left the loop; at most one success
  was recorded, by a committed request; and each success counter has grown by the number
  of successes recorded for its index.
\<close>

definition requestInv :: "Gateway \<Rightarrow> StreamState \<Rightarrow> bool" where
  "requestInv g s =
     (length (trackedServices (gw s)) = length (trackedServices g)
      \<and> set (dispatched s) = triedIndices s
      \<and> distinct (dispatched s)
      \<and> (\<not> started s \<or> \<not> running s)
      \<and> (successes s = [] \<or> (started s \<and> (\<exists>j<length (trackedServices g). successes s = [j])))
      \<and> (\<forall>i<length (trackedServices g).
            successCounts (gw s) ! i = successCounts g ! i + int (count_list (successes s) i)))"

subsection \<open>Example requests\<close>

text \<open>
  A stream of two chunks; the same stream with the response cancelled after the first
  chunk; and a client that goes away while the first chunk is awaited.
\<close>

definition helloEnv :: AttemptEnv where
  "helloEnv = attemptEnv (Yield ''Hel'') [Chunk ''lo''] None"

definition cancelledEnv :: AttemptEnv where
  "cancelledEnv = attemptEnv (Yield ''Hel'') [Interrupted StreamCancel, Chunk ''lo''] None"

definition goneEnv :: AttemptEnv where
  "goneEnv = (attemptEnv (Yield ''Hel'') [Chunk ''lo''] None)\<lparr>duringFirst := [RequestAbort]\<rparr>"

text \<open>Two tracked services, as created at startup.\<close>

definition twoServices :: Gateway where
  "twoServices = newGateway [newTracked Groq ''1'', newTracked Gemini ''1'']"

text \<open>
  Three requests: one whose first attempt times out and whose second streams two chunks;
  one cancelled after it has committed, on a service with one counted failure; one whose
  client goes away before the first chunk.
\<close>

definition failoverRun :: StreamState where
  "failoverRun = run RoundRobin [timeoutEnv, helloEnv] (startRequest 1000 twoServices)"

definition cancelledRun :: StreamState where
  "cancelledRun =
     run Smart [cancelledEnv] (startRequest 1000 (newGateway [withBreaker CLOSED 1 None 0]))"

definition goneRun :: StreamState where
  "goneRun = run Smart [goneEnv] (startRequest 1000 twoServices)"

subsection \<open>Valid messages, in the words of the specification\<close>

text \<open>
  A text part is an object of type \<^verbatim>\<open>text\<close> with a string \<^verbatim>\<open>text\<close>; an image part is
  an object of type \<^verbatim>\<open>image_url\<close> whose \<^verbatim>\<open>image_url\<close> is an object (in JavaScript's
  sense: an object or an array). A valid message is an object whose role is one of
  \<^verbatim>\<open>system\<close>, \<^verbatim>\<open>user\<close>, \<^verbatim>\<open>assistant\<close> and whose content is a string or an array of
  text and image parts. A body has valid messages when its \<^verbatim>\<open>messages\<close> member is an
  array of valid messages.
\<close>

definition isTextPart :: "json \<Rightarrow> bool" where
  "isTextPart p =
     (\<exists>members t. p = JObject members \<and> getProp p ''type'' = Some (JString ''text'')
        \<and> getProp p ''text'' = Some (JString t))"

definition isImageUrlPart :: "json \<Rightarrow> bool" where
  "isImageUrlPart p =
     (\<exists>members u. p = JObject members \<and> getProp p ''type'' = Some (JString ''image_url'')
        \<and> getProp p ''image_url'' = Some u
        \<and> ((\<exists>ms. u = JObject ms) \<or> (\<exists>xs. u = JArray xs)))"

definition validMessage :: "json \<Rightarrow> bool" where
  "validMessage m =
     (\<exists>members r. m = JObject members \<and> getProp m ''role'' = Some (JString r)
        \<and> r \<in> {''system'', ''user'', ''assistant''}
        \<and> ((\<exists>c. getProp m ''content'' = Some (JString c))
            \<or> (\<exists>parts. getProp m ''content'' = Some (JArray parts)
                  \<and> (\<forall>p\<in>set parts. isTextPart p \<or> isImageUrlPart p))))"

definition validMessages :: "json \<Rightarrow> bool" where
  "validMessages body =
     (\<exists>messages. getProp body ''messages'' = Some (JArray messages)
        \<and> (\<forall>m\<in>set messages. validMessage m))"

text \<open>A chat request with a given parsed body, no routing header and no credentials.\<close>

definition chatRequest :: "json option \<Rightarrow> Request" where
  "chatRequest b =
     \<lparr>reqMethod = ''POST'', reqPathname = ''/v1/chat/completions'', reqAuthorization = None,
      reqRoutingMode = None, reqBody = b\<rparr>"

subsection \<open>The in-flight counter of a streaming request\<close>

text \<open>
  The value of \<^verbatim>\<open>inFlightRequests\<close> with the request's decrement undone, if it has
  happened.
\<close>

definition owed :: "StreamState \<Rightarrow> int" where
  "owed s = inFlightRequests (gw s) + (if hasDecrementedInFlight s then 1 else 0)"

text \<open>Example requests and environments for the server.\<close>

definition userMessage :: json where
  "userMessage = JObject [(''role'', JString ''user''), (''content'', JString ''hi'')]"

definition completedEnv :: CompletionEnv where
  "completedEnv = \<lparr>nsRandom = 0.5, nsSleepLate = 0, nsResult = Completed, nsWait = 7\<rparr>"

definition failedEnv :: CompletionEnv where
  "failedEnv = \<lparr>nsRandom = 0.5, nsSleepLate = 0, nsResult = Failed ''upstream error'', nsWait = 7\<rparr>"

definition quietEnv :: FetchEnv where
  "quietEnv = \<lparr>masterKey = [], arrival = 1000, streamScript = [helloEnv],
               completionScript = [completedEnv]\<rparr>"

definition failingEnv :: FetchEnv where
  "failingEnv = \<lparr>masterKey = [], arrival = 1000, streamScript = [timeoutEnv, timeoutEnv],
                 completionScript = [failedEnv, failedEnv]\<rparr>"

definition nonStreamingRequest :: Request where
  "nonStreamingRequest =
     (chatRequest (Some (JObject [(''messages'', JArray [userMessage]), (''stream'', JBool False)])))
       \<lparr>reqRoutingMode := Some ''round-robin''\<rparr>"

subsection \<open>Requests that record no success\<close>

text \<open>
  A tracked service shows no success between two moments when its success counter is the
  same, its breaker's failure counter has not gone down, and its breaker has not moved
  into CLOSED from another state (\<open>recordSuccess\<close> is the only operation that lowers
  the counter or closes a breaker).
\<close>

definition noSuccessRecorded ::
    "EnhancedTrackedService \<Rightarrow> EnhancedTrackedService \<Rightarrow> bool" where
  "noSuccessRecorded t t' =
     (failures (circuitBreaker t) \<le> failures (circuitBreaker t')
      \<and> (state (circuitBreaker t') \<noteq> CLOSED \<or> state (circuitBreaker t) = CLOSED)
      \<and> successCount (metrics t') = successCount (metrics t))"

text \<open>
  Two invariants of a streaming request: the observation \<open>cancelledBeforeCommit\<close> says
  exactly that the request is aborted and has not committed; and as long as no success
  was logged, no service of the pool shows one.
\<close>

definition cancelInv :: "StreamState \<Rightarrow> bool" where
  "cancelInv s =
     ((\<not> cancelledBeforeCommit s \<or> (aborted s \<and> \<not> started s))
      \<and> (\<not> aborted s \<or> cancelledBeforeCommit s \<or> started s))"

definition quietInv :: "Gateway \<Rightarrow> StreamState \<Rightarrow> bool" where
  "quietInv g s =
     (successes s \<noteq> []
      \<or> list_all2 noSuccessRecorded (trackedServices g) (trackedServices (gw s)))"

text \<open>
  A stream whose first chunk is empty, whose client goes away while the second chunk is
  awaited, and the request that meets it.
\<close>

definition lateGoneEnv :: AttemptEnv where
  "lateGoneEnv = attemptEnv (Yield []) [Interrupted RequestAbort, Chunk ''lo''] None"

definition lateGoneRun :: StreamState where
  "lateGoneRun = run RoundRobin [lateGoneEnv] (startRequest 1000 twoServices)"

section \<open>Verification\<close>

lemmas config_defs = errorPenaltyDurationMs_def minRequestsForScoring_def failureThreshold_def
  resetTimeoutMs_def halfOpenMaxAttempts_def initialDelayMs_def maxDelayMs_def multiplier_def

lemmas example_defs = newTracked_def newGateway_def withBreaker_def createInitialMetrics_def
  createInitialCircuitBreaker_def createService_def

subsection \<open>The circuit breaker\<close>

text \<open>
  Claim C2. Recording a success while the breaker is CLOSED sets \<open>failures\<close> to
  \<open>max 0 (failures - 1)\<close> and leaves the state CLOSED; recording a success while it is
  HALF_OPEN sets the state to CLOSED with \<open>failures = 0\<close> and \<open>halfOpenAttempts = 0\<close>;
  recording a failure while it is CLOSED increments \<open>failures\<close> and sets the state to
  OPEN exactly when the incremented counter has reached the threshold of 3; recording a
  failure while it is HALF_OPEN sets the state to OPEN with \<open>halfOpenAttempts = 0\<close> and
  \<open>lastFailureTime\<close> set to the current time. Nothing else of the tracked service
  changes.
\<close>

theorem breaker_transitions:
  "(state (circuitBreaker t) = CLOSED \<longrightarrow>
      recordSuccess t =
        t\<lparr>circuitBreaker := (circuitBreaker t)\<lparr>failures := max 0 (failures (circuitBreaker t) - 1)\<rparr>\<rparr>
      \<and> state (circuitBreaker (recordSuccess t)) = CLOSED) \<and>
   (state (circuitBreaker t) = HALF_OPEN \<longrightarrow>
      recordSuccess t =
        t\<lparr>circuitBreaker := (circuitBreaker t)\<lparr>state := CLOSED, failures := 0, halfOpenAttempts := 0\<rparr>\<rparr>) \<and>
   (state (circuitBreaker t) = CLOSED \<longrightarrow>
      recordFailure now t =
        t\<lparr>circuitBreaker := (circuitBreaker t)
            \<lparr>state := (if failures (circuitBreaker t) + 1 \<ge> 3 then OPEN else CLOSED),
             failures := failures (circuitBreaker t) + 1,
             lastFailureTime := Some now\<rparr>\<rparr>) \<and>
   (state (circuitBreaker t) = HALF_OPEN \<longrightarrow>
      recordFailure now t =
        t\<lparr>circuitBreaker := (circuitBreaker t)
            \<lparr>state := OPEN, lastFailureTime := Some now, halfOpenAttempts := 0\<rparr>\<rparr>) \<and>
   failureThreshold = 3"
  by (simp add: recordSuccess_def recordFailure_def Let_def failureThreshold_def)

theorem breaker_transitions_witness:
  "state (circuitBreaker (recordSuccess (withBreaker CLOSED 2 None 0))) = CLOSED
   \<and> failures (circuitBreaker (recordSuccess (withBreaker CLOSED 2 None 0))) = 1
   \<and> failures (circuitBreaker (recordSuccess (withBreaker CLOSED 0 None 0))) = 0
   \<and> circuitBreaker (recordSuccess (withBreaker HALF_OPEN 3 (Some 5) 1))
       = \<lparr>state = CLOSED, failures = 0, lastFailureTime = Some 5, halfOpenAttempts = 0\<rparr>
   \<and> circuitBreaker (recordFailure 1000 (withBreaker CLOSED 1 None 0))
       = \<lparr>state = CLOSED, failures = 2, lastFailureTime = Some 1000, halfOpenAttempts = 0\<rparr>
   \<and> circuitBreaker (recordFailure 1000 (withBreaker CLOSED 2 None 0))
       = \<lparr>state = OPEN, failures = 3, lastFailureTime = Some 1000, halfOpenAttempts = 0\<rparr>
   \<and> circuitBreaker (recordFailure 1000 (withBreaker HALF_OPEN 3 (Some 5) 1))
       = \<lparr>state = OPEN, failures = 3, lastFailureTime = Some 1000, halfOpenAttempts = 0\<rparr>"
  using breaker_transitions [of "withBreaker CLOSED 2 None 0" 1000, unfolded config_defs]
    breaker_transitions [of "withBreaker CLOSED 0 None 0" 1000, unfolded config_defs]
    breaker_transitions [of "withBreaker CLOSED 1 None 0" 1000, unfolded config_defs]
    breaker_transitions [of "withBreaker HALF_OPEN 3 (Some 5) 1" 1000, unfolded config_defs]
  by (simp add: example_defs)

text \<open>
  Claim C3. The availability check answers true when the breaker is CLOSED. When it is
  OPEN it answers true exactly when \<open>now - lastFailureTime \<ge> 60000\<close>, and then it also
  moves the breaker to HALF_OPEN with \<open>halfOpenAttempts = 0\<close>; otherwise it answers
  false and changes nothing. When it is HALF_OPEN it answers true exactly when
  \<open>halfOpenAttempts < 1\<close>, and changes nothing.

  The timestamp of an OPEN breaker is a value of \<^verbatim>\<open>Date.now()\<close> written by
  \<open>recordFailure\<close>; the source tests it for truthiness, so the statement is about
  timestamps other than the epoch itself (lemma \<open>open_has_timestamp\<close> below: every
  breaker that \<open>recordFailure\<close> opens at a time other than 0 has such a timestamp).
\<close>

theorem availability_check:
  "(state (circuitBreaker t) = CLOSED \<longrightarrow> isServiceAvailable now t = (True, t)) \<and>
   (state (circuitBreaker t) = OPEN \<longrightarrow> lastFailureTime (circuitBreaker t) = Some ts \<longrightarrow> ts \<noteq> 0 \<longrightarrow>
      isServiceAvailable now t =
        (if now - ts \<ge> 60000
         then (True, t\<lparr>circuitBreaker := (circuitBreaker t)\<lparr>state := HALF_OPEN, halfOpenAttempts := 0\<rparr>\<rparr>)
         else (False, t))) \<and>
   (state (circuitBreaker t) = HALF_OPEN \<longrightarrow>
      isServiceAvailable now t = (halfOpenAttempts (circuitBreaker t) < 1, t)) \<and>
   resetTimeoutMs = 60000 \<and> halfOpenMaxAttempts = 1"
  by (simp add: isServiceAvailable_def Let_def config_defs)

theorem availability_check_witness:
  "isServiceAvailable 70000 (withBreaker CLOSED 0 None 0) = (True, withBreaker CLOSED 0 None 0)
   \<and> isServiceAvailable 70000 (withBreaker OPEN 3 (Some 10000) 0)
       = (True, withBreaker HALF_OPEN 3 (Some 10000) 0)
   \<and> isServiceAvailable 69999 (withBreaker OPEN 3 (Some 10000) 7)
       = (False, withBreaker OPEN 3 (Some 10000) 7)
   \<and> isServiceAvailable 70000 (withBreaker HALF_OPEN 3 (Some 10000) 0)
       = (True, withBreaker HALF_OPEN 3 (Some 10000) 0)
   \<and> isServiceAvailable 70000 (withBreaker HALF_OPEN 3 (Some 10000) 1)
       = (False, withBreaker HALF_OPEN 3 (Some 10000) 1)"
  using
    availability_check [where t = "withBreaker CLOSED 0 None 0" and now = 70000,
      unfolded config_defs]
    availability_check [where t = "withBreaker OPEN 3 (Some 10000) 0" and ts = 10000
      and now = 70000, unfolded config_defs]
    availability_check [where t = "withBreaker OPEN 3 (Some 10000) 7" and ts = 10000
      and now = 69999, unfolded config_defs]
    availability_check [where t = "withBreaker HALF_OPEN 3 (Some 10000) 0" and now = 70000,
      unfolded config_defs]
    availability_check [where t = "withBreaker HALF_OPEN 3 (Some 10000) 1" and now = 70000,
      unfolded config_defs]
  by (simp add: example_defs)

text \<open>The invariant behind claim C3.\<close>

lemma open_has_timestamp:
  "timestamped (newTracked p i)"
  "now \<noteq> 0 \<Longrightarrow> timestamped (recordFailure now t)"
  "timestamped t \<Longrightarrow> timestamped (recordSuccess t)"
  "timestamped t \<Longrightarrow> timestamped (snd (isServiceAvailable now t))"
  by (auto simp: timestamped_def example_defs recordFailure_def recordSuccess_def
        isServiceAvailable_def Let_def split: CircuitState.splits)

subsection \<open>The health score\<close>

lemma bonus_range: "0 \<le> bonus svc \<and> bonus svc \<le> 0.15"
  by (simp add: bonus_def Let_def)

text \<open>
  Claim C4. With \<open>B\<close> the priority bonus the scorer uses, the health score of a tracked
  service at time \<open>now\<close> is 0 when the breaker is OPEN and 0.1 when it is HALF_OPEN;
  otherwise it is \<open>clamp (0.5 + B) 0 1\<close> when fewer than 3 requests were counted, and
  \<open>clamp (0.5 * (successCount / totalRequests)
     + 0.3 * max 0 (1 - (totalLatencyMs / totalRequests) / 5000) + B - penalty) 0 1\<close>
  otherwise, where the penalty is \<open>0.3 * (1 - d / 30000)\<close> if there is a last error
  time with \<open>d = now - lastErrorTime < 30000\<close>, and 0 if not. The score lies in [0, 1].

  Scores are reals here. The last error time is a value of \<^verbatim>\<open>Date.now()\<close>; the source
  tests it for truthiness, so the statement is about error times other than the epoch.
\<close>

theorem health_score:
  assumes "lastErrorTime (metrics t) \<noteq> Some 0"
  shows
  "(state (circuitBreaker t) = OPEN \<longrightarrow> calculateHealthScore now t = 0) \<and>
   (state (circuitBreaker t) = HALF_OPEN \<longrightarrow> calculateHealthScore now t = 0.1) \<and>
   (state (circuitBreaker t) = CLOSED \<longrightarrow> totalRequests (metrics t) < 3 \<longrightarrow>
      calculateHealthScore now t = clamp (0.5 + bonus (service t)) 0 1) \<and>
   (state (circuitBreaker t) = CLOSED \<longrightarrow> \<not> totalRequests (metrics t) < 3 \<longrightarrow>
      calculateHealthScore now t =
        clamp (0.5 * (real_of_int (successCount (metrics t)) / real_of_int (totalRequests (metrics t)))
               + 0.3 * max 0 (1 - (real_of_int (totalLatencyMs (metrics t))
                                    / real_of_int (totalRequests (metrics t))) / 5000)
               + bonus (service t)
               - (case lastErrorTime (metrics t) of
                    Some lastErr \<Rightarrow>
                      if now - lastErr < 30000
                      then 0.3 * (1 - real_of_int (now - lastErr) / 30000)
                      else 0
                  | None \<Rightarrow> 0))
              0 1) \<and>
   0 \<le> calculateHealthScore now t \<and> calculateHealthScore now t \<le> 1"
proof -
  have b: "0 \<le> bonus (service t)" "bonus (service t) \<le> 0.15"
    using bonus_range [of "service t"] by simp_all
  have pen: "recentErrorPenalty now (metrics t) =
      (case lastErrorTime (metrics t) of
         Some lastErr \<Rightarrow>
           if now - lastErr < 30000 then 0.3 * (1 - real_of_int (now - lastErr) / 30000) else 0
       | None \<Rightarrow> 0)"
    using assms by (cases "lastErrorTime (metrics t)") (auto simp: recentErrorPenalty_def Let_def config_defs)
  have range: "0 \<le> calculateHealthScore now t \<and> calculateHealthScore now t \<le> 1"
    using b by (simp add: calculateHealthScore_def Let_def)
  show ?thesis
    using b range pen
    by (cases "state (circuitBreaker t)")
       (simp_all add: calculateHealthScore_def Let_def clamp_def config_defs algebra_simps)
qed

theorem health_score_witness:
  "calculateHealthScore 20000
     ((newTracked Groq ''1'')
        \<lparr>metrics := \<lparr>totalRequests = 4, successCount = 3, failCount = 1, totalLatencyMs = 4000,
                      lastError = Some ''boom'', lastErrorTime = Some 5000\<rparr>\<rparr>) = 0.565
   \<and> calculateHealthScore 20000 (newTracked Groq ''1'') = 0.6
   \<and> calculateHealthScore 20000 (withBreaker OPEN 3 (Some 5) 0) = 0
   \<and> calculateHealthScore 20000 (withBreaker HALF_OPEN 3 (Some 5) 0) = 0.1"
proof -
  have b: "bonus (createService Groq ''1'') = 0.1"
    by (simp add: bonus_def createService_def toLowerCase_def toLowerChar_def)
  show ?thesis
    using health_score [of "(newTracked Groq ''1'')
        \<lparr>metrics := \<lparr>totalRequests = 4, successCount = 3, failCount = 1, totalLatencyMs = 4000,
                      lastError = Some ''boom'', lastErrorTime = Some 5000\<rparr>\<rparr>" 20000]
      health_score [of "newTracked Groq ''1''" 20000]
      health_score [of "withBreaker OPEN 3 (Some 5) 0" 20000]
      health_score [of "withBreaker HALF_OPEN 3 (Some 5) 0" 20000]
    by (simp add: newTracked_def withBreaker_def createInitialMetrics_def
          createInitialCircuitBreaker_def b clamp_def)
qed

subsection \<open>The priority bonus\<close>

lemma startsWith_set: "startsWith s sub \<Longrightarrow> set sub \<subseteq> set s"
  by (induction s sub rule: startsWith.induct) auto

lemma includes_str_set: "includes_str s sub \<Longrightarrow> set sub \<subseteq> set s"
proof (induction s)
  case Nil
  then show ?case by simp
next
  case (Cons c cs)
  then show ?case using startsWith_set [of "c # cs" sub] by auto
qed

lemma startsWith_append: "startsWith (sub @ rest) sub"
  by (induction sub) auto

lemma includes_str_prefix: "sub \<noteq> [] \<Longrightarrow> includes_str (sub @ rest) sub"
  by (cases sub) (use startsWith_append [of sub rest] in auto)

lemma toLowerCase_append: "toLowerCase (a @ b) = toLowerCase a @ toLowerCase b"
  by (simp add: toLowerCase_def)

lemma toLowerChar_digit: "c \<in> set ''0123456789'' \<Longrightarrow> toLowerChar c = c"
proof -
  have "\<forall>d \<in> set ''0123456789''. toLowerChar d = d"
    by (simp add: toLowerChar_def)
  then show "c \<in> set ''0123456789'' \<Longrightarrow> toLowerChar c = c" by blast
qed

lemma toLowerCase_instanceId: "isInstanceId i \<Longrightarrow> toLowerCase i = i"
  unfolding isInstanceId_def toLowerCase_def list_all_iff
  by (intro map_idI toLowerChar_digit) blast

lemma lowered_strings:
  "toLowerCase ''Cerebras'' = ''cerebras''"
  "toLowerCase ''Groq'' = ''groq''"
  "toLowerCase ''OpenRouter'' = ''openrouter''"
  "toLowerCase ''Gemini'' = ''gemini''"
  "toLowerCase '' (Key #'' = '' (key #''"
  "toLowerCase '')'' = '')''"
  by (simp_all add: toLowerCase_def toLowerChar_def)

lemma lowered_name:
  assumes "isInstanceId i"
  shows "toLowerCase (name (createService p i)) =
           toLowerCase (displayName p) @ ('' (key #'' @ i @ '')'')"
proof -
  have "name (createService p i) = displayName p @ ('' (Key #'' @ i @ '')'')"
    by (simp add: createService_def)
  then show ?thesis
    by (simp only: toLowerCase_append lowered_strings toLowerCase_instanceId [OF assms])
qed

lemma notin_lowered_name:
  assumes "isInstanceId i" and "c \<notin> set (toLowerCase (displayName p))"
    and "c \<notin> set '' (key #''" and "c \<notin> set ''0123456789''" and "c \<notin> set '')''"
  shows "c \<notin> set (toLowerCase (name (createService p i)))"
proof -
  have "set i \<subseteq> set ''0123456789''"
    using assms(1) unfolding isInstanceId_def list_all_iff by blast
  then have "c \<notin> set i" using assms(4) by blast
  then show ?thesis
    using assms(2,3,5) unfolding lowered_name [OF assms(1)] set_append by blast
qed

lemma not_includes_str: "c \<in> set sub \<Longrightarrow> c \<notin> set s \<Longrightarrow> \<not> includes_str s sub"
  using includes_str_set by blast

text \<open>
  The values of the bonus. For every adapter the gateway's constructors build, named
  \<^verbatim>\<open>${displayName} (Key #${instanceId})\<close> with an instance id of decimal digits, the
  substring tests on the lower-cased display name give the entry of the priority table
  for the adapter's provider kind: cerebras 0.15, groq 0.10, openrouter 0.05, gemini 0.00.
\<close>

theorem bonus_of_created_service:
  assumes "isInstanceId i"
  shows "bonus (createService p i) = priorityBonus p"
proof -
  let ?n = "toLowerCase (name (createService p i))"
  let ?rest = "'' (key #'' @ i @ '')''"
  note absent = notin_lowered_name [OF assms]
  show ?thesis
  proof (cases p)
    case Cerebras
    have "includes_str (''cerebras'' @ ?rest) ''cerebras''"
      by (rule includes_str_prefix) simp
    then have "includes_str ?n ''cerebras''"
      by (simp only: lowered_name [OF assms] Cerebras displayName.simps lowered_strings)
    then show ?thesis by (simp add: bonus_def Cerebras)
  next
    case Groq
    have "CHR ''c'' \<notin> set ?n"
      by (rule absent) (simp_all add: Groq lowered_strings)
    then have no: "\<not> includes_str ?n ''cerebras''"
      by (rule not_includes_str [rotated]) simp
    have "includes_str (''groq'' @ ?rest) ''groq''"
      by (rule includes_str_prefix) simp
    then have "includes_str ?n ''groq''"
      by (simp only: lowered_name [OF assms] Groq displayName.simps lowered_strings)
    with no show ?thesis by (simp add: bonus_def Groq)
  next
    case OpenRouter
    have "CHR ''c'' \<notin> set ?n" "CHR ''g'' \<notin> set ?n"
      by (rule absent; simp add: OpenRouter lowered_strings)+
    then have no: "\<not> includes_str ?n ''cerebras''" "\<not> includes_str ?n ''groq''"
      by (simp_all add: not_includes_str [of "CHR ''c''"] not_includes_str [of "CHR ''g''"])
    have "includes_str (''openrouter'' @ ?rest) ''openrouter''"
      by (rule includes_str_prefix) simp
    then have "includes_str ?n ''openrouter''"
      by (simp only: lowered_name [OF assms] OpenRouter displayName.simps lowered_strings)
    with no show ?thesis by (simp add: bonus_def OpenRouter)
  next
    case Gemini
    have "CHR ''c'' \<notin> set ?n" "CHR ''q'' \<notin> set ?n" "CHR ''p'' \<notin> set ?n"
      by (rule absent; simp add: Gemini lowered_strings)+
    then have no: "\<not> includes_str ?n ''cerebras''" "\<not> includes_str ?n ''groq''"
        "\<not> includes_str ?n ''openrouter''"
      by (simp_all add: not_includes_str [of "CHR ''c''"] not_includes_str [of "CHR ''q''"]
            not_includes_str [of "CHR ''p''"])
    then show ?thesis by (simp add: bonus_def Gemini)
  qed
qed

theorem bonus_of_created_service_witness:
  "isInstanceId ''12'' \<and> bonus (createService Groq ''12'') = 0.10"
  using bonus_of_created_service [of "''12''" Groq] by (simp add: isInstanceId_def)

text \<open>The scorer does not read the provider kind: the field has no influence on the bonus.\<close>

lemma bonus_ignores_provider: "bonus (svc\<lparr>provider := p\<rparr>) = bonus svc"
  by (simp add: bonus_def)


subsection \<open>The selector\<close>

lemma isServiceAvailable_CLOSED:
  "state (circuitBreaker t) = CLOSED \<Longrightarrow> isServiceAvailable now t = (True, t)"
  by (simp add: isServiceAvailable_def)

lemma available_three:
  "available now {} 0 (trackedServices threeWithOneDisabled)
     = ([0, 2], trackedServices threeWithOneDisabled)"
  by (simp add: threeWithOneDisabled_def example_defs isServiceAvailable_CLOSED)

lemma round_robin_three:
  assumes "trackedServices g = trackedServices threeWithOneDisabled"
  shows "getNextService now rnd {} RoundRobin g
           = (Some ([0, 2] ! (roundRobinPointer g mod 2)),
              g\<lparr>roundRobinPointer := (roundRobinPointer g + 1) mod 3\<rparr>)"
proof -
  have len: "length (trackedServices threeWithOneDisabled) = 3"
    by (simp add: threeWithOneDisabled_def newGateway_def)
  have "g\<lparr>trackedServices := trackedServices threeWithOneDisabled\<rparr> = g"
    using assms by simp
  then show ?thesis
    by (simp add: getNextService_def assms available_three len numeral_2_eq_2)
qed

text \<open>
  Claim C6 at a concrete pool: three tracked services, all breakers CLOSED, the second
  one disabled, so that the candidate set is the same two services (indices 0 and 2) at
  every selection. Four consecutive round-robin selections from the initial cursor 0
  return 0, 2, 0, 0: with the cursor at 2 (reached after two selections), two consecutive
  selections both return index 0, because the cursor is reduced modulo the number of
  candidates when it is read and modulo the number of tracked services when it is
  advanced.
\<close>

theorem round_robin_repeats:
  "consecutive 4 now rnd {} RoundRobin threeWithOneDisabled
     = ([Some 0, Some 2, Some 0, Some 0], threeWithOneDisabled\<lparr>roundRobinPointer := 1\<rparr>)
   \<and> consecutive 2 now rnd {} RoundRobin (threeWithOneDisabled\<lparr>roundRobinPointer := 2\<rparr>)
     = ([Some 0, Some 0], threeWithOneDisabled\<lparr>roundRobinPointer := 1\<rparr>)"
proof -
  have p0: "roundRobinPointer threeWithOneDisabled = 0"
    by (simp add: threeWithOneDisabled_def newGateway_def)
  have four: "(4::nat) = Suc (Suc (Suc (Suc 0)))" and two: "(2::nat) = Suc (Suc 0)"
    by simp_all
  have a: "consecutive 4 now rnd {} RoundRobin threeWithOneDisabled
     = ([Some 0, Some 2, Some 0, Some 0], threeWithOneDisabled\<lparr>roundRobinPointer := 1\<rparr>)"
    unfolding four by (simp add: round_robin_three p0)
  have b: "consecutive 2 now rnd {} RoundRobin (threeWithOneDisabled\<lparr>roundRobinPointer := 2\<rparr>)
     = ([Some 0, Some 0], threeWithOneDisabled\<lparr>roundRobinPointer := 1\<rparr>)"
    unfolding two by (simp add: round_robin_three p0)
  from a b show ?thesis by simp
qed

subsection \<open>The streaming loop does not always end\<close>

text \<open>
  \<open>getNextService\<close> skips a disabled service, the re-probe after the backoff sleep does
  not: it asks only \<open>isServiceAvailable\<close>. With an untried, disabled service whose
  breaker is CLOSED the selector returns nothing, the re-probe answers that a circuit has
  reopened, and the loop goes round again, in the same state but for the clock.
\<close>

lemma stuck_step:
  assumes "stuck s" and "duringSleep e = []"
  shows "stuck (step mode e s) \<and> selectorCalls (step mode e s) = selectorCalls s + 1
         \<and> sleeps (step mode e s) = sleeps s + 1"
proof -
  from assms(1) obtain a b where
    s: "running s" "\<not> aborted s" "0 < attemptNumber s" "triedIndices s = {0}"
       "trackedServices (gw s) = [a, b]" "\<not> enabled b" "state (circuitBreaker b) = CLOSED"
    unfolding stuck_def by blast
  have cond: "loopCond s"
    using s by (simp add: loopCond_def)
  have sel: "getNextService now rnd {0} mode (gw s) = (None, gw s)" for now rnd
    using s by (simp add: getNextService_def)
  have probe: "reprobe now {0} 0 [a, b] = (True, [a, b])" for now
    using s by (simp add: isServiceAvailable_CLOSED)
  have same: "(gw s)\<lparr>trackedServices := [a, b]\<rparr> = gw s"
    using s(5) by simp
  have "step mode e s =
      s\<lparr>selectorCalls := selectorCalls s + 1,
        clock := clock s + \<lfloor>calculateBackoffDelay (attemptNumber s)\<rfloor> + int (sleepLate e),
        sleeps := sleeps s + 1\<rparr>"
    using s cond assms(2)
    by (simp add: step_def loopBody_def sel sleep_def interrupts_def probe same Let_def
          del: reprobe.simps)
  then show ?thesis
    using s by (simp add: stuck_def)
qed

lemma stuck_run:
  assumes "stuck s" and "duringSleep e = []"
  shows "stuck (run mode (replicate k e) s)
         \<and> selectorCalls (run mode (replicate k e) s) = selectorCalls s + k
         \<and> sleeps (run mode (replicate k e) s) = sleeps s + k"
  using assms(1)
proof (induction k arbitrary: s)
  case 0
  then show ?case by (simp add: run_def)
next
  case (Suc k)
  have "run mode (replicate (Suc k) e) s = run mode (replicate k e) (step mode e s)"
    by (simp add: run_def)
  then show ?case
    using Suc.IH [of "step mode e s"] stuck_step [OF Suc.prems assms(2), of mode] by simp
qed

lemma first_attempt_times_out:
  "stuck (step mode timeoutEnv (startRequest now twoWithOneDisabled))
   \<and> selectorCalls (step mode timeoutEnv (startRequest now twoWithOneDisabled)) = 1
   \<and> sleeps (step mode timeoutEnv (startRequest now twoWithOneDisabled)) = 0"
proof -
  let ?s0 = "startRequest now twoWithOneDisabled"
  have cond: "loopCond ?s0" "running ?s0"
    by (simp_all add: loopCond_def startRequest_def twoWithOneDisabled_def newGateway_def)
  have sel: "getNextService now rnd {} mode twoWithOneDisabled = (Some 0, twoWithOneDisabled)" for rnd
    by (simp add: getNextService_def twoWithOneDisabled_def example_defs isServiceAvailable_CLOSED)
  show ?thesis
    using cond
    by (simp add: step_def loopBody_def startRequest_def sel Let_def streamAttempt_def
          timeoutEnv_def attemptEnv_def interrupts_def catchError_def updateTracked_def stuck_def)
       (simp add: twoWithOneDisabled_def example_defs)
qed

text \<open>
  Claim C7 at a concrete request: two tracked services, the second one disabled, the
  first one failing before its first chunk, the client staying connected. After
  \<open>n\<close> passes the loop is still running, for every \<open>n\<close>, and has called the selector
  \<open>n\<close> times and slept \<open>n - 1\<close> times: it does not terminate, and no bound in the
  number of tracked services holds.
\<close>

theorem failover_loop_spins:
  "running (run mode (replicate n timeoutEnv) (startRequest now twoWithOneDisabled))
   \<and> selectorCalls (run mode (replicate n timeoutEnv) (startRequest now twoWithOneDisabled)) = n
   \<and> sleeps (run mode (replicate n timeoutEnv) (startRequest now twoWithOneDisabled)) = n - 1"
proof (cases n)
  case 0
  then show ?thesis by (simp add: run_def startRequest_def)
next
  case (Suc k)
  let ?s1 = "step mode timeoutEnv (startRequest now twoWithOneDisabled)"
  have quiet: "duringSleep timeoutEnv = []"
    by (simp add: timeoutEnv_def attemptEnv_def)
  have "run mode (replicate n timeoutEnv) (startRequest now twoWithOneDisabled)
          = run mode (replicate k timeoutEnv) ?s1"
    by (simp add: Suc run_def)
  then show ?thesis
    using first_attempt_times_out [of mode now] stuck_run [OF _ quiet, of ?s1 mode k]
    by (simp add: Suc stuck_def)
qed

subsection \<open>The streaming loop: what its parts leave unchanged\<close>

lemma isServiceAvailable_frame [simp]:
  "metrics (snd (isServiceAvailable now t)) = metrics t"
  "service (snd (isServiceAvailable now t)) = service t"
  "enabled (snd (isServiceAvailable now t)) = enabled t"
  by (simp_all add: isServiceAvailable_def Let_def split: CircuitState.split)

lemma available_length [simp]:
  "length (snd (available now ex i pool)) = length pool"
  by (induction pool arbitrary: i) (simp_all add: split_beta Let_def)

lemma available_metrics [simp]:
  "map metrics (snd (available now ex i pool)) = map metrics pool"
  by (induction pool arbitrary: i) (simp_all add: split_beta Let_def)

lemma available_indices:
  "j \<in> set (fst (available now ex i pool)) \<Longrightarrow> i \<le> j \<and> j < i + length pool \<and> j \<notin> ex"
proof (induction pool arbitrary: i)
  case Nil
  then show ?case by simp
next
  case (Cons ts rest)
  then show ?case
    by (fastforce simp: split_beta Let_def split: if_splits)
qed

lemma reprobe_length [simp]:
  "length (snd (reprobe now tried i pool)) = length pool"
  by (induction pool arbitrary: i) (simp_all add: split_beta Let_def)

lemma reprobe_metrics [simp]:
  "map metrics (snd (reprobe now tried i pool)) = map metrics pool"
  by (induction pool arbitrary: i) (simp_all add: split_beta Let_def)

lemma weightedPick_member:
  "weightedPick r scored = Some i \<Longrightarrow> i \<in> fst ` set scored"
  by (induction r scored rule: weightedPick.induct) (auto simp: Let_def split: if_splits)

lemma sort_nth_mod: "xs \<noteq> [] \<Longrightarrow> sort xs ! (p mod length (sort xs)) \<in> set (xs :: nat list)"
proof -
  assume "xs \<noteq> []"
  then have "p mod length (sort xs) < length (sort xs)" by simp
  then have "sort xs ! (p mod length (sort xs)) \<in> set (sort xs)" by (rule nth_mem)
  then show ?thesis by simp
qed

lemma getNextService_frame [simp]:
  "length (trackedServices (snd (getNextService now rnd ex mode g))) = length (trackedServices g)"
  "map metrics (trackedServices (snd (getNextService now rnd ex mode g)))
     = map metrics (trackedServices g)"
  "inFlightRequests (snd (getNextService now rnd ex mode g)) = inFlightRequests g"
  by (simp_all add: getNextService_def split_beta Let_def split: list.split option.split)

lemma getNextService_choice:
  assumes "fst (getNextService now rnd ex mode g) = Some j"
  shows "j < length (trackedServices g) \<and> j \<notin> ex"
proof -
  let ?avail = "fst (available now ex 0 (trackedServices g))"
  let ?pool = "snd (available now ex 0 (trackedServices g))"
  let ?scored = "sort_key (\<lambda>(i, score). - score)
                   (map (\<lambda>i. (i, calculateHealthScore now (?pool ! i))) ?avail)"
  have scored: "fst ` set ?scored = set ?avail"
    by (simp add: image_image)
  have "j \<in> set ?avail"
  proof (cases ?avail)
    case Nil
    with assms show ?thesis by (simp add: getNextService_def split_beta)
  next
    case (Cons a as)
    note outer = Cons
    show ?thesis
    proof (cases as)
      case Nil
      with assms outer show ?thesis by (simp add: getNextService_def split_beta)
    next
      case (Cons b bs)
      have ne: "?scored \<noteq> []" using outer by simp
      then have hd: "fst (hd ?scored) \<in> set ?avail"
        using scored hd_in_set [OF ne] by blast
      have pick: "weightedPick r ?scored = Some i \<Longrightarrow> i \<in> set ?avail" for r i
        using weightedPick_member [of r ?scored i] scored by simp
      have "?avail \<noteq> []" using outer by simp
      note rr = sort_nth_mod [OF this]
      show ?thesis
      proof (cases mode)
        case RoundRobin
        with assms outer Cons rr [of "roundRobinPointer g"] show ?thesis
          by (simp add: getNextService_def split_beta Let_def)
      next
        case Fastest
        with assms outer Cons hd show ?thesis
          by (simp add: getNextService_def split_beta Let_def)
      next
        case Smart
        with assms outer Cons hd pick show ?thesis
          by (auto simp: getNextService_def split_beta Let_def split: option.splits)
      qed
    qed
  qed
  then show ?thesis
    using available_indices [of j now ex 0 "trackedServices g"] by simp
qed

lemma successCounts_metrics:
  "map metrics (trackedServices g') = map metrics (trackedServices g)
     \<Longrightarrow> successCounts g' = successCounts g"
proof -
  assume "map metrics (trackedServices g') = map metrics (trackedServices g)"
  then have "map (successCount \<circ> metrics) (trackedServices g')
               = map (successCount \<circ> metrics) (trackedServices g)"
    by (simp only: map_map [symmetric])
  then show ?thesis by (simp add: successCounts_def comp_def)
qed

lemma successCounts_pool [simp]:
  "successCounts (g\<lparr>trackedServices := pool\<rparr>) = map (\<lambda>t. successCount (metrics t)) pool"
  by (simp add: successCounts_def)

lemma successCounts_getNextService [simp]:
  "successCounts (snd (getNextService now rnd ex mode g)) = successCounts g"
  by (rule successCounts_metrics) simp

lemma successCounts_reprobe [simp]:
  "map (\<lambda>t. successCount (metrics t)) (snd (reprobe now tried i pool))
     = map (\<lambda>t. successCount (metrics t)) pool"
  by (induction pool arbitrary: i) (simp_all add: split_beta Let_def)

lemma updateTracked_frame [simp]:
  "length (trackedServices (updateTracked i f g)) = length (trackedServices g)"
  "inFlightRequests (updateTracked i f g) = inFlightRequests g"
  "successCounts (updateTracked i f g)
     = (successCounts g)[i := successCount (metrics (f (trackedServices g ! i)))]"
  by (simp_all add: updateTracked_def successCounts_def map_update)

lemma bookkeeping_successCount [simp]:
  "successCount (metrics (beginAttempt b t)) = successCount (metrics t)"
  "successCount (metrics (onFailure msg st now t)) = successCount (metrics t)"
  "successCount (metrics (onSuccess st now t)) = successCount (metrics t) + 1"
  by (simp_all add: beginAttempt_def onFailure_def onSuccess_def recordFailure_def
        recordSuccess_def Let_def)

lemma decrementInFlight_frame [simp]:
  "triedIndices (decrementInFlight s) = triedIndices s"
  "dispatched (decrementInFlight s) = dispatched s"
  "successes (decrementInFlight s) = successes s"
  "started (decrementInFlight s) = started s"
  "running (decrementInFlight s) = running s"
  "aborted (decrementInFlight s) = aborted s"
  "attemptNumber (decrementInFlight s) = attemptNumber s"
  "selectorCalls (decrementInFlight s) = selectorCalls s"
  "sleeps (decrementInFlight s) = sleeps s"
  "clock (decrementInFlight s) = clock s"
  "trackedServices (gw (decrementInFlight s)) = trackedServices (gw s)"
  "successCounts (gw (decrementInFlight s)) = successCounts (gw s)"
  by (simp_all add: decrementInFlight_def successCounts_def)

lemma interrupt_frame [simp]:
  "triedIndices (interrupt i s) = triedIndices s"
  "dispatched (interrupt i s) = dispatched s"
  "successes (interrupt i s) = successes s"
  "started (interrupt i s) = started s"
  "running (interrupt i s) = running s"
  "attemptNumber (interrupt i s) = attemptNumber s"
  "selectorCalls (interrupt i s) = selectorCalls s"
  "sleeps (interrupt i s) = sleeps s"
  "clock (interrupt i s) = clock s"
  "trackedServices (gw (interrupt i s)) = trackedServices (gw s)"
  "successCounts (gw (interrupt i s)) = successCounts (gw s)"
  "aborted (interrupt i s)"
  by (cases i; simp add: successCounts_def)+

lemma interrupts_frame [simp]:
  "triedIndices (interrupts is s) = triedIndices s"
  "dispatched (interrupts is s) = dispatched s"
  "successes (interrupts is s) = successes s"
  "started (interrupts is s) = started s"
  "running (interrupts is s) = running s"
  "attemptNumber (interrupts is s) = attemptNumber s"
  "selectorCalls (interrupts is s) = selectorCalls s"
  "sleeps (interrupts is s) = sleeps s"
  "clock (interrupts is s) = clock s"
  "trackedServices (gw (interrupts is s)) = trackedServices (gw s)"
  "successCounts (gw (interrupts is s)) = successCounts (gw s)"
  unfolding interrupts_def by (induction "is" arbitrary: s; simp)+

lemma interrupts_aborted: "aborted s \<Longrightarrow> aborted (interrupts is s)"
  unfolding interrupts_def by (induction "is" arbitrary: s) simp_all

lemma sleep_frame [simp]:
  "triedIndices (sleep ms e s) = triedIndices s"
  "dispatched (sleep ms e s) = dispatched s"
  "successes (sleep ms e s) = successes s"
  "started (sleep ms e s) = started s"
  "running (sleep ms e s) = running s"
  "attemptNumber (sleep ms e s) = attemptNumber s"
  "selectorCalls (sleep ms e s) = selectorCalls s"
  "trackedServices (gw (sleep ms e s)) = trackedServices (gw s)"
  "successCounts (gw (sleep ms e s)) = successCounts (gw s)"
  by (simp_all add: sleep_def)

lemma forAwait_frame [simp]:
  "triedIndices (snd (forAwait evs s)) = triedIndices s"
  "dispatched (snd (forAwait evs s)) = dispatched s"
  "successes (snd (forAwait evs s)) = successes s"
  "running (snd (forAwait evs s)) = running s"
  "attemptNumber (snd (forAwait evs s)) = attemptNumber s"
  "selectorCalls (snd (forAwait evs s)) = selectorCalls s"
  "sleeps (snd (forAwait evs s)) = sleeps s"
  "clock (snd (forAwait evs s)) = clock s"
  "trackedServices (gw (snd (forAwait evs s))) = trackedServices (gw s)"
  "successCounts (gw (snd (forAwait evs s))) = successCounts (gw s)"
  by (induction evs s rule: forAwait.induct; simp add: successCounts_def)+

lemma forAwait_started: "started s \<Longrightarrow> started (snd (forAwait evs s))"
  by (induction evs s rule: forAwait.induct) simp_all

subsection \<open>The streaming loop: one attempt, one pass, a run\<close>

lemma successCounts_nth:
  "i < length (trackedServices g) \<Longrightarrow>
     successCounts g ! i = successCount (metrics (trackedServices g ! i))"
  by (simp add: successCounts_def)

lemma successCounts_length [simp]: "length (successCounts g) = length (trackedServices g)"
  by (simp add: successCounts_def)

lemma success_effect:
  assumes "i < length (trackedServices (gw s))"
  shows "successCounts (gw (success i st s)) = (successCounts (gw s))[i := successCounts (gw s) ! i + 1]"
    and "successes (success i st s) = successes s @ [i]"
    and "length (trackedServices (gw (success i st s))) = length (trackedServices (gw s))"
    and "triedIndices (success i st s) = triedIndices s"
    and "dispatched (success i st s) = dispatched s"
    and "started (success i st s) = started s"
    and "attemptNumber (success i st s) = attemptNumber s"
    and "selectorCalls (success i st s) = selectorCalls s"
    and "sleeps (success i st s) = sleeps s"
  using assms by (simp_all add: success_def successCounts_nth)

lemma catchError_effect:
  assumes "i < length (trackedServices (gw s))"
  shows "successCounts (gw (catchError msg i st s)) = successCounts (gw s)"
    and "successes (catchError msg i st s) = successes s"
    and "length (trackedServices (gw (catchError msg i st s))) = length (trackedServices (gw s))"
    and "triedIndices (catchError msg i st s) = triedIndices s"
    and "dispatched (catchError msg i st s) = dispatched s"
    and "started (catchError msg i st s) = started s"
    and "\<not> started (catchError msg i st s) \<or> \<not> running (catchError msg i st s)"
    and "attemptNumber (catchError msg i st s) = attemptNumber s"
    and "selectorCalls (catchError msg i st s) = selectorCalls s"
    and "sleeps (catchError msg i st s) = sleeps s"
  using assms by (simp_all add: catchError_def Let_def successCounts_nth [symmetric])

lemma streamAttempt_effect:
  assumes "\<not> started s" and "successes s = []" and "i < length (trackedServices (gw s))"
  shows "triedIndices (streamAttempt e i st s) = triedIndices s
       \<and> dispatched (streamAttempt e i st s) = dispatched s
       \<and> attemptNumber (streamAttempt e i st s) = attemptNumber s
       \<and> selectorCalls (streamAttempt e i st s) = selectorCalls s
       \<and> sleeps (streamAttempt e i st s) = sleeps s
       \<and> length (trackedServices (gw (streamAttempt e i st s))) = length (trackedServices (gw s))
       \<and> (\<not> started (streamAttempt e i st s) \<or> \<not> running (streamAttempt e i st s))
       \<and> (successes (streamAttempt e i st s) = []
            \<or> (started (streamAttempt e i st s) \<and> successes (streamAttempt e i st s) = [i]))
       \<and> successCounts (gw (streamAttempt e i st s))
           = (successCounts (gw s))
               [i := successCounts (gw s) ! i + int (length (successes (streamAttempt e i st s)))]"
proof (cases "firstResult e")
  case (Throw msg)
  define s1 where "s1 = (interrupts (duringFirst e) s)\<lparr>clock := clock s + int (firstWait e)\<rparr>"
  have frame1: "triedIndices s1 = triedIndices s" "dispatched s1 = dispatched s"
    "successes s1 = []" "successCounts (gw s1) = successCounts (gw s)"
    "length (trackedServices (gw s1)) = length (trackedServices (gw s))"
    "attemptNumber s1 = attemptNumber s" "selectorCalls s1 = selectorCalls s"
    "sleeps s1 = sleeps s" "\<not> started s1"
    using assms(1,2) by (simp_all add: s1_def)
  have i1: "i < length (trackedServices (gw s1))" using assms(3) frame1 by simp
  have "streamAttempt e i st s = catchError msg i st s1"
    by (simp add: streamAttempt_def Throw Let_def s1_def)
  then show ?thesis
    using catchError_effect [OF i1, of msg st] frame1 by simp
next
  case Return
  define s1 where "s1 = (interrupts (duringFirst e) s)\<lparr>clock := clock s + int (firstWait e)\<rparr>"
  define s2 where "s2 = s1\<lparr>started := True\<rparr>"
  have frame1: "triedIndices s1 = triedIndices s" "dispatched s1 = dispatched s"
    "successes s1 = []" "successCounts (gw s1) = successCounts (gw s)"
    "length (trackedServices (gw s1)) = length (trackedServices (gw s))"
    "attemptNumber s1 = attemptNumber s" "selectorCalls s1 = selectorCalls s"
    "sleeps s1 = sleeps s" "\<not> started s1"
    using assms(1,2) by (simp_all add: s1_def)
  have frame2: "triedIndices s2 = triedIndices s" "dispatched s2 = dispatched s"
    "successes s2 = []" "successCounts (gw s2) = successCounts (gw s)"
    "length (trackedServices (gw s2)) = length (trackedServices (gw s))"
    "attemptNumber s2 = attemptNumber s" "selectorCalls s2 = selectorCalls s"
    "sleeps s2 = sleeps s" "started s2"
    using frame1 by (simp_all add: s2_def)
  have i2: "i < length (trackedServices (gw s2))" using assms(3) frame2 by simp
  have unfold: "streamAttempt e i st s =
          (if aborted s1 then s1\<lparr>running := False\<rparr> else (success i st s2)\<lparr>running := False\<rparr>)"
    by (simp add: streamAttempt_def Return Let_def s1_def s2_def)
  show ?thesis
  proof (cases "aborted s1")
    case True
    then have "streamAttempt e i st s = s1\<lparr>running := False\<rparr>" using unfold by simp
    then show ?thesis using frame1 by simp
  next
    case False
    then have "streamAttempt e i st s = (success i st s2)\<lparr>running := False\<rparr>"
      using unfold by simp
    then show ?thesis using success_effect [OF i2, of st] frame2 by simp
  qed
next
  case (Yield v)
  define s1 where "s1 = (interrupts (duringFirst e) s)\<lparr>clock := clock s + int (firstWait e)\<rparr>"
  define s2 where "s2 = (if v \<noteq> [] then s1\<lparr>started := True\<rparr> else s1)"
  define fa where "fa = forAwait (restEvents e) s2"
  define s4 where "s4 = (snd fa)\<lparr>clock := clock (snd fa) + int (restWait e)\<rparr>"
  define throws where "throws = (fst fa = Exhausted \<and> restEnd e \<noteq> None)"
  have frame1: "triedIndices s1 = triedIndices s" "dispatched s1 = dispatched s"
    "successes s1 = []" "successCounts (gw s1) = successCounts (gw s)"
    "length (trackedServices (gw s1)) = length (trackedServices (gw s))"
    "attemptNumber s1 = attemptNumber s" "selectorCalls s1 = selectorCalls s"
    "sleeps s1 = sleeps s" "\<not> started s1"
    using assms(1,2) by (simp_all add: s1_def)
  have frame4: "triedIndices s4 = triedIndices s" "dispatched s4 = dispatched s"
    "successes s4 = []" "successCounts (gw s4) = successCounts (gw s)"
    "length (trackedServices (gw s4)) = length (trackedServices (gw s))"
    "attemptNumber s4 = attemptNumber s" "selectorCalls s4 = selectorCalls s"
    "sleeps s4 = sleeps s"
    using frame1 by (simp_all add: s4_def fa_def s2_def)
  have i4: "i < length (trackedServices (gw s4))" using assms(3) frame4 by simp
  have unfold: "streamAttempt e i st s =
      (if aborted s1 then s1\<lparr>running := False\<rparr>
       else if throws
       then catchError (the (restEnd e)) i st s4
       else if started s4 then (success i st s4)\<lparr>running := False\<rparr>
       else s4)"
    by (auto simp: streamAttempt_def Yield Let_def split_beta s1_def s2_def fa_def s4_def
          throws_def)
  show ?thesis
  proof (cases "aborted s1")
    case True
    then have "streamAttempt e i st s = s1\<lparr>running := False\<rparr>"
      using unfold by simp
    then show ?thesis using frame1 by simp
  next
    case False
    note live = False
    show ?thesis
    proof (cases throws)
      case True
      then have "streamAttempt e i st s = catchError (the (restEnd e)) i st s4"
        using unfold live by simp
      then show ?thesis
        using catchError_effect [OF i4, of "the (restEnd e)" st] frame4 by simp
    next
      case False
      note no_throw = False
      show ?thesis
      proof (cases "started s4")
        case True
        then have "streamAttempt e i st s = (success i st s4)\<lparr>running := False\<rparr>"
          using unfold live no_throw by simp
        then show ?thesis
          using success_effect [OF i4, of st] frame4 True by simp
      next
        case False
        then have "streamAttempt e i st s = s4"
          using unfold live no_throw by simp
        then show ?thesis
          using frame4 False by simp
      qed
    qed
  qed
qed

lemma requestInv_start: "requestInv g (startRequest now g)"
  by (simp add: requestInv_def startRequest_def)

lemma loopBody_effect:
  assumes inv: "requestInv g s" and run: "running s"
  shows "requestInv g (loopBody mode e s) \<and> triedIndices s \<subseteq> triedIndices (loopBody mode e s)"
proof -
  define n where "n = length (trackedServices g)"
  from inv run have pre: "length (trackedServices (gw s)) = n" "set (dispatched s) = triedIndices s"
    "distinct (dispatched s)" "\<not> started s" "successes s = []"
    "\<forall>i<n. successCounts (gw s) ! i = successCounts g ! i"
    by (auto simp: requestInv_def n_def)
  define sel where "sel = getNextService (clock s) (random e) (triedIndices s) mode (gw s)"
  define s1 where "s1 = s\<lparr>gw := snd sel, selectorCalls := selectorCalls s + 1\<rparr>"
  have frame1: "length (trackedServices (gw s1)) = n" "successCounts (gw s1) = successCounts (gw s)"
    "triedIndices s1 = triedIndices s" "dispatched s1 = dispatched s" "\<not> started s1"
    "successes s1 = []" "running s1"
    using pre run by (simp_all add: s1_def sel_def)
  show ?thesis
  proof (cases "fst sel")
    case None
    define s2 where "s2 = sleep (calculateBackoffDelay (attemptNumber s1)) e s1"
    define rp where "rp = reprobe (clock s2) (triedIndices s2) 0 (trackedServices (gw s2))"
    define s3 where "s3 = s2\<lparr>gw := (gw s2)\<lparr>trackedServices := snd rp\<rparr>\<rparr>"
    have frame3: "length (trackedServices (gw s3)) = n" "successCounts (gw s3) = successCounts (gw s)"
      "triedIndices s3 = triedIndices s" "dispatched s3 = dispatched s" "\<not> started s3"
      "successes s3 = []"
      using frame1 by (simp_all add: s3_def rp_def s2_def successCounts_def)
    have "loopBody mode e s =
        (if attemptNumber s1 > 0 then (if \<not> fst rp then s3\<lparr>running := False\<rparr> else s3)
         else s1\<lparr>running := False\<rparr>)"
      using None unfolding loopBody_def sel_def s1_def s2_def rp_def s3_def
      by (auto simp: split_beta Let_def)
    then show ?thesis
      using frame1 frame3 pre by (auto simp: requestInv_def n_def)
  next
    case (Some i)
    then have choice: "i < n" "i \<notin> triedIndices s"
      using getNextService_choice [of "clock s" "random e" "triedIndices s" mode "gw s" i] pre(1)
      by (simp_all add: sel_def)
    define s2 where "s2 = s1\<lparr>attemptNumber := attemptNumber s1 + 1,
                               triedIndices := insert i (triedIndices s1)\<rparr>"
    define s3 where "s3 = (if attemptNumber s2 > 1
                           then sleep (calculateBackoffDelay (attemptNumber s2 - 1)) e s2 else s2)"
    define s4 where "s4 = s3\<lparr>gw := updateTracked i (beginAttempt True) (gw s3),
                               dispatched := dispatched s3 @ [i]\<rparr>"
    have frame3: "length (trackedServices (gw s3)) = n" "successCounts (gw s3) = successCounts (gw s)"
      "triedIndices s3 = insert i (triedIndices s)" "dispatched s3 = dispatched s" "\<not> started s3"
      "successes s3 = []"
      using frame1 by (simp_all add: s3_def s2_def)
    have "successCounts (gw s4) = (successCounts (gw s3))[i := successCounts (gw s3) ! i]"
      using choice(1) frame3(1) by (simp add: s4_def successCounts_nth)
    then have counts4: "successCounts (gw s4) = successCounts (gw s)"
      using frame3(2) by simp
    have frame4: "length (trackedServices (gw s4)) = n"
      "triedIndices s4 = insert i (triedIndices s)" "dispatched s4 = dispatched s @ [i]"
      "\<not> started s4" "successes s4 = []"
      using frame3 by (simp_all add: s4_def)
    have i4: "i < length (trackedServices (gw s4))"
      using choice(1) frame4(1) by simp
    have body: "loopBody mode e s = streamAttempt e i (clock s3) s4"
      using Some unfolding loopBody_def sel_def s1_def s2_def s3_def s4_def
      by (auto simp: split_beta Let_def)
    note eff = streamAttempt_effect [OF frame4(4) frame4(5) i4, of e "clock s3"]
    define s' where "s' = streamAttempt e i (clock s3) s4"
    from eff have post: "triedIndices s' = insert i (triedIndices s)"
      "dispatched s' = dispatched s @ [i]"
      "length (trackedServices (gw s')) = n"
      "\<not> started s' \<or> \<not> running s'"
      "successes s' = [] \<or> (started s' \<and> successes s' = [i])"
      "successCounts (gw s') = (successCounts (gw s))[i := successCounts (gw s) ! i + int (length (successes s'))]"
      using frame4 counts4 by (simp_all add: s'_def)
    have len: "length (successCounts (gw s)) = n"
      using pre(1) by simp
    have counts: "successCounts (gw s') ! j = successCounts g ! j + int (count_list (successes s') j)"
      if "j < n" for j
      using post(5,6) pre(6) that len choice(1) by (cases "j = i") auto
    have "requestInv g s'"
      unfolding requestInv_def
      using post pre(2,3) choice counts by (auto simp: n_def)
    then show ?thesis
      using post(1) by (auto simp: body s'_def)
  qed
qed

lemma step_effect:
  assumes "requestInv g s"
  shows "requestInv g (step mode e s) \<and> triedIndices s \<subseteq> triedIndices (step mode e s)"
proof (cases "running s")
  case False
  then show ?thesis using assms by (simp add: step_def)
next
  case True
  show ?thesis
  proof (cases "loopCond s")
    case False
    then have "step mode e s = s\<lparr>running := False\<rparr>"
      using True by (simp add: step_def)
    then show ?thesis using assms by (simp add: requestInv_def)
  next
    case cond: True
    then have "step mode e s = loopBody mode e s"
      using True by (simp add: step_def)
    then show ?thesis using loopBody_effect [OF assms True, of mode e] by simp
  qed
qed

lemma run_append: "run mode (es @ es') s = run mode es' (run mode es s)"
  by (simp add: run_def)

lemma run_Cons: "run mode (e # es) s = run mode es (step mode e s)"
  by (simp add: run_def)

lemma run_effect:
  assumes "requestInv g s"
  shows "requestInv g (run mode es s) \<and> triedIndices s \<subseteq> triedIndices (run mode es s)"
  using assms
proof (induction es arbitrary: s)
  case Nil
  then show ?case by (simp add: run_def)
next
  case (Cons e es)
  from step_effect [OF Cons.prems, of mode e]
  have "requestInv g (step mode e s)" and sub: "triedIndices s \<subseteq> triedIndices (step mode e s)"
    by simp_all
  from Cons.IH [OF this(1)] sub show ?case
    by (auto simp: run_Cons)
qed

lemma run_finished: "\<not> running s \<Longrightarrow> run mode es s = s"
  by (induction es) (simp_all add: run_def step_def)

subsection \<open>The streaming loop: example runs\<close>

lemmas loop_defs = run_def step_def loopCond_def loopBody_def startRequest_def streamAttempt_def
  catchError_def success_def updateTracked_def beginAttempt_def onSuccess_def onFailure_def
  recordSuccess_def recordFailure_def sleep_def interrupts_def decrementInFlight_def
  attemptEnv_def timeoutEnv_def

lemma cancelledRun_value:
  "aborted cancelledRun \<and> started cancelledRun \<and> \<not> running cancelledRun
   \<and> dispatched cancelledRun = [0] \<and> successes cancelledRun = [0]
   \<and> metrics (trackedServices (gw cancelledRun) ! 0)
       = \<lparr>totalRequests = 1, successCount = 1, failCount = 0, totalLatencyMs = 15,
          lastError = None, lastErrorTime = None\<rparr>
   \<and> circuitBreaker (trackedServices (gw cancelledRun) ! 0)
       = \<lparr>state = CLOSED, failures = 0, lastFailureTime = None, halfOpenAttempts = 0\<rparr>"
  by (simp add: cancelledRun_def cancelledEnv_def loop_defs getNextService_def example_defs
        isServiceAvailable_CLOSED Let_def)

lemma failoverRun_value:
  "started failoverRun \<and> \<not> running failoverRun \<and> triedIndices failoverRun = {1, 0}
   \<and> dispatched failoverRun = [0, 1] \<and> successes failoverRun = [1]
   \<and> successCounts (gw failoverRun) = [0, 1] \<and> successCounts twoServices = [0, 0]
   \<and> selectorCalls failoverRun = 2 \<and> sleeps failoverRun = 1"
  by (simp add: failoverRun_def helloEnv_def twoServices_def loop_defs getNextService_def
        example_defs isServiceAvailable_CLOSED Let_def successCounts_def config_defs
        calculateBackoffDelay_def)

lemma goneRun_value:
  "aborted goneRun \<and> \<not> started goneRun \<and> \<not> running goneRun \<and> successes goneRun = []"
  by (simp add: goneRun_def goneEnv_def twoServices_def loop_defs getNextService_def
        example_defs isServiceAvailable_CLOSED Let_def bonus_def toLowerCase_def
        toLowerChar_def calculateHealthScore_def config_defs)


subsection \<open>The streaming loop: the claims\<close>

lemma aborted_uncommitted_step:
  assumes "aborted s" and "\<not> started s"
  shows "aborted (step mode e s) \<and> \<not> started (step mode e s)"
  using assms by (simp add: step_def loopCond_def)

lemma aborted_uncommitted_run:
  assumes "aborted s" and "\<not> started s"
  shows "aborted (run mode es s) \<and> \<not> started (run mode es s)"
  using assms
proof (induction es arbitrary: s)
  case Nil
  then show ?case by (simp add: run_def)
next
  case (Cons e es)
  then show ?case
    using aborted_uncommitted_step [of s mode e] by (simp add: run_Cons)
qed

text \<open>
  Claim C1. For every streaming request, every routing mode, every state of the pool and
  every behaviour of the adapters, timers and client: the set of tried indices only
  grows; no index is dispatched to more than once (and the indices dispatched to are
  exactly the tried ones); at most one success is recorded, and at most one service has
  its success counter incremented, by one; and once the request has committed
  (\<open>started\<close> is true), further passes change nothing: no other service is selected or
  attempted, whether the committed stream ends or fails.
\<close>

theorem failover_invariants:
  "triedIndices (run mode es (startRequest now g))
     \<subseteq> triedIndices (run mode (es @ es') (startRequest now g))
   \<and> distinct (dispatched (run mode es (startRequest now g)))
   \<and> set (dispatched (run mode es (startRequest now g)))
       = triedIndices (run mode es (startRequest now g))
   \<and> length (successes (run mode es (startRequest now g))) \<le> 1
   \<and> ((\<forall>i<length (trackedServices g).
          successCounts (gw (run mode es (startRequest now g))) ! i = successCounts g ! i)
       \<or> (\<exists>j<length (trackedServices g).
            successCounts (gw (run mode es (startRequest now g))) ! j = successCounts g ! j + 1
            \<and> (\<forall>i<length (trackedServices g). i \<noteq> j \<longrightarrow>
                  successCounts (gw (run mode es (startRequest now g))) ! i
                    = successCounts g ! i)))
   \<and> (started (run mode es (startRequest now g)) \<longrightarrow>
        run mode (es @ es') (startRequest now g) = run mode es (startRequest now g))"
proof -
  define s where "s = run mode es (startRequest now g)"
  have inv: "requestInv g s"
    using run_effect [OF requestInv_start, of g mode es now] by (simp add: s_def)
  have later: "run mode (es @ es') (startRequest now g) = run mode es' s"
    by (simp add: run_append s_def)
  have mono: "triedIndices s \<subseteq> triedIndices (run mode es' s)"
    using run_effect [OF inv, of mode es'] by simp
  have stop: "started s \<longrightarrow> run mode es' s = s"
    using inv run_finished [of s mode es'] by (auto simp: requestInv_def)
  have disp: "distinct (dispatched s)" "set (dispatched s) = triedIndices s"
    using inv by (simp_all add: requestInv_def)
  from inv have succ: "successes s = [] \<or> (\<exists>j<length (trackedServices g). successes s = [j])"
    by (auto simp: requestInv_def)
  from inv have counts: "\<forall>i<length (trackedServices g).
      successCounts (gw s) ! i = successCounts g ! i + int (count_list (successes s) i)"
    by (simp add: requestInv_def)
  have one: "length (successes s) \<le> 1"
    using succ by auto
  have changed: "(\<forall>i<length (trackedServices g). successCounts (gw s) ! i = successCounts g ! i)
       \<or> (\<exists>j<length (trackedServices g).
            successCounts (gw s) ! j = successCounts g ! j + 1
            \<and> (\<forall>i<length (trackedServices g). i \<noteq> j \<longrightarrow>
                  successCounts (gw s) ! i = successCounts g ! i))"
    using succ
  proof
    assume "successes s = []"
    with counts show ?thesis by simp
  next
    assume "\<exists>j<length (trackedServices g). successes s = [j]"
    then obtain j where "j < length (trackedServices g)" "successes s = [j]" by blast
    with counts have "successCounts (gw s) ! j = successCounts g ! j + 1
            \<and> (\<forall>i<length (trackedServices g). i \<noteq> j \<longrightarrow>
                  successCounts (gw s) ! i = successCounts g ! i)"
      by simp
    with \<open>j < length (trackedServices g)\<close> show ?thesis by blast
  qed
  show ?thesis
    unfolding later s_def [symmetric]
    using mono disp one changed stop by blast
qed

theorem failover_invariants_witness:
  "started failoverRun
   \<and> run RoundRobin ([timeoutEnv, helloEnv] @ [helloEnv]) (startRequest 1000 twoServices)
       = failoverRun
   \<and> distinct (dispatched failoverRun) \<and> dispatched failoverRun = [0, 1]
   \<and> length (successes failoverRun) \<le> 1
   \<and> successCounts (gw failoverRun) ! 1 = successCounts twoServices ! 1 + 1
   \<and> successCounts (gw failoverRun) ! 0 = successCounts twoServices ! 0"
  using failover_invariants [of RoundRobin "[timeoutEnv, helloEnv]" 1000 twoServices "[helloEnv]"]
    failoverRun_value
  by (simp add: failoverRun_def [symmetric])

subsection \<open>Breakers without a success\<close>

lemma nst_refl [simp]: "noSuccessRecorded t t"
  by (simp add: noSuccessRecorded_def)

lemma nst_trans:
  "noSuccessRecorded a b \<Longrightarrow> noSuccessRecorded b c \<Longrightarrow> noSuccessRecorded a c"
  by (auto simp: noSuccessRecorded_def)

lemma nst_pool_refl [simp]: "list_all2 noSuccessRecorded pool pool"
  by (simp add: list_all2_refl)

lemma nst_pool_trans:
  "list_all2 noSuccessRecorded a b \<Longrightarrow> list_all2 noSuccessRecorded b c
     \<Longrightarrow> list_all2 noSuccessRecorded a c"
  by (rule list_all2_trans [of noSuccessRecorded noSuccessRecorded noSuccessRecorded])
     (auto intro: nst_trans)

lemma nst_isServiceAvailable [simp]:
  "noSuccessRecorded t (snd (isServiceAvailable now t))"
  by (simp add: noSuccessRecorded_def isServiceAvailable_def Let_def split: CircuitState.split)

lemma nst_beginAttempt [simp]: "noSuccessRecorded t (beginAttempt b t)"
  by (simp add: noSuccessRecorded_def beginAttempt_def Let_def)

lemma nst_onFailure [simp]: "noSuccessRecorded t (onFailure msg st now t)"
  by (simp add: noSuccessRecorded_def onFailure_def recordFailure_def Let_def)

lemma nst_available [simp]:
  "list_all2 noSuccessRecorded pool (snd (available now ex i pool))"
  by (induction pool arbitrary: i) (simp_all add: split_beta Let_def)

lemma nst_reprobe [simp]:
  "list_all2 noSuccessRecorded pool (snd (reprobe now tried i pool))"
  by (induction pool arbitrary: i) (simp_all add: split_beta Let_def)

lemma nst_getNextService [simp]:
  "list_all2 noSuccessRecorded (trackedServices g)
     (trackedServices (snd (getNextService now rnd ex mode g)))"
  by (simp add: getNextService_def split_beta Let_def split: list.split option.split)

lemma nst_updateTracked:
  assumes "\<And>t. noSuccessRecorded t (f t)"
  shows "list_all2 noSuccessRecorded (trackedServices g) (trackedServices (updateTracked i f g))"
proof (cases "i < length (trackedServices g)")
  case True
  then show ?thesis
    unfolding updateTracked_def
    by (simp add: list_all2_conv_all_nth nth_list_update assms)
next
  case False
  then show ?thesis by (simp add: updateTracked_def list_update_beyond)
qed

subsection \<open>Cancellation before commit\<close>

lemma success_signals [simp]:
  "aborted (success i st s) = aborted s"
  "cancelledBeforeCommit (success i st s) = cancelledBeforeCommit s"
  by (simp_all add: success_def)

lemma catchError_signals [simp]:
  "aborted (catchError msg i st s) = aborted s"
  "started (catchError msg i st s) = started s"
  "cancelledBeforeCommit (catchError msg i st s) = cancelledBeforeCommit s"
  by (simp_all add: catchError_def Let_def)

lemma cancelInv_fields:
  "aborted s' = aborted s \<Longrightarrow> started s' = started s
     \<Longrightarrow> cancelledBeforeCommit s' = cancelledBeforeCommit s \<Longrightarrow> cancelInv s' = cancelInv s"
  by (simp add: cancelInv_def)

lemma cancelInv_decrementInFlight [simp]: "cancelInv (decrementInFlight s) = cancelInv s"
  by (simp add: cancelInv_def decrementInFlight_def)

lemma cancelInv_interrupt: "cancelInv s \<Longrightarrow> cancelInv (interrupt i s)"
  by (cases i) (auto simp: cancelInv_def decrementInFlight_def)

lemma cancelInv_interrupts: "cancelInv s \<Longrightarrow> cancelInv (interrupts is s)"
  unfolding interrupts_def by (induction "is" arbitrary: s) (simp_all add: cancelInv_interrupt)

lemma cancelInv_sleep: "cancelInv s \<Longrightarrow> cancelInv (sleep ms e s)"
  using cancelInv_interrupts [of s "duringSleep e"] by (simp add: sleep_def cancelInv_def)

lemma cancelInv_forAwait: "cancelInv s \<Longrightarrow> cancelInv (snd (forAwait evs s))"
proof (induction evs s rule: forAwait.induct)
  case (1 s)
  then show ?case by simp
next
  case (2 i es s)
  then show ?case by (simp add: cancelInv_interrupt)
next
  case (3 chunk es s)
  show ?case
  proof (cases "aborted s")
    case True
    with "3.prems" show ?thesis by simp
  next
    case False
    with "3.prems" have "cancelInv (if chunk \<noteq> [] then s\<lparr>started := True\<rparr> else s)"
      by (auto simp: cancelInv_def)
    with "3.IH" False show ?thesis by simp
  qed
qed

lemma cancelInv_clock [simp]: "cancelInv (s\<lparr>clock := c\<rparr>) = cancelInv s"
  by (simp add: cancelInv_def)

lemma cancelInv_running [simp]: "cancelInv (s\<lparr>running := b\<rparr>) = cancelInv s"
  by (simp add: cancelInv_def)

lemma cancelInv_commit: "cancelInv s \<Longrightarrow> \<not> aborted s \<Longrightarrow> cancelInv (s\<lparr>started := True\<rparr>)"
  by (auto simp: cancelInv_def)

lemma cancelInv_success [simp]: "cancelInv (success i st s) = cancelInv s"
  by (simp add: cancelInv_def success_def)

lemma cancelInv_catchError [simp]: "cancelInv (catchError msg i st s) = cancelInv s"
  by (simp add: cancelInv_def)

lemma catchError_pool:
  "list_all2 noSuccessRecorded (trackedServices (gw s))
     (trackedServices (gw (catchError msg i st s)))"
  using nst_updateTracked [of "onFailure msg st (clock s)" "gw s" i]
  by (simp add: catchError_def Let_def)

lemma streamAttempt_cancel:
  assumes "cancelInv s" and "successes s = []"
  shows "cancelInv (streamAttempt e i st s)
       \<and> (successes (streamAttempt e i st s) \<noteq> []
           \<or> list_all2 noSuccessRecorded (trackedServices (gw s))
                (trackedServices (gw (streamAttempt e i st s))))"
proof -
  define s1 where "s1 = (interrupts (duringFirst e) s)\<lparr>clock := clock s + int (firstWait e)\<rparr>"
  have c1: "cancelInv s1"
    using cancelInv_interrupts [OF assms(1), of "duringFirst e"] by (simp add: s1_def)
  have p1: "trackedServices (gw s1) = trackedServices (gw s)"
    by (simp add: s1_def)
  show ?thesis
  proof (cases "firstResult e")
    case (Throw msg)
    have "streamAttempt e i st s = catchError msg i st s1"
      by (simp add: streamAttempt_def Throw Let_def s1_def)
    then show ?thesis
      using c1 catchError_pool [of s1 msg i st] p1 by simp
  next
    case Return
    define s2 where "s2 = s1\<lparr>started := True\<rparr>"
    have unfold: "streamAttempt e i st s =
          (if aborted s1 then s1\<lparr>running := False\<rparr> else (success i st s2)\<lparr>running := False\<rparr>)"
      by (simp add: streamAttempt_def Return Let_def s1_def s2_def)
    show ?thesis
    proof (cases "aborted s1")
      case True
      then have "streamAttempt e i st s = s1\<lparr>running := False\<rparr>" using unfold by simp
      then show ?thesis using c1 p1 by simp
    next
      case False
      then have eq: "streamAttempt e i st s = (success i st s2)\<lparr>running := False\<rparr>"
        using unfold by simp
      have "cancelInv s2"
        using cancelInv_commit [OF c1 False] by (simp add: s2_def)
      then show ?thesis
        by (simp add: eq) (simp add: success_def)
    qed
  next
    case (Yield v)
    define s2 where "s2 = (if v \<noteq> [] then s1\<lparr>started := True\<rparr> else s1)"
    define fa where "fa = forAwait (restEvents e) s2"
    define s4 where "s4 = (snd fa)\<lparr>clock := clock (snd fa) + int (restWait e)\<rparr>"
    define throws where "throws = (fst fa = Exhausted \<and> restEnd e \<noteq> None)"
    have unfold: "streamAttempt e i st s =
        (if aborted s1 then s1\<lparr>running := False\<rparr>
         else if throws
         then catchError (the (restEnd e)) i st s4
         else if started s4 then (success i st s4)\<lparr>running := False\<rparr>
         else s4)"
      by (auto simp: streamAttempt_def Yield Let_def split_beta s1_def s2_def fa_def s4_def
            throws_def)
    show ?thesis
    proof (cases "aborted s1")
      case True
      then have "streamAttempt e i st s = s1\<lparr>running := False\<rparr>" using unfold by simp
      then show ?thesis using c1 p1 by simp
    next
      case False
      note live = False
      have "cancelInv s2"
        using cancelInv_commit [OF c1 live] c1 by (simp add: s2_def)
      then have c4: "cancelInv s4"
        using cancelInv_forAwait [of s2 "restEvents e"] by (simp add: s4_def fa_def)
      have p4: "trackedServices (gw s4) = trackedServices (gw s)"
        using p1 by (simp add: s4_def fa_def s2_def)
      show ?thesis
      proof (cases throws)
        case True
        then have "streamAttempt e i st s = catchError (the (restEnd e)) i st s4"
          using unfold live by simp
        then show ?thesis
          using c4 catchError_pool [of s4 "the (restEnd e)" i st] p4 by simp
      next
        case False
        note no_throw = False
        show ?thesis
        proof (cases "started s4")
          case True
          then have eq: "streamAttempt e i st s = (success i st s4)\<lparr>running := False\<rparr>"
            using unfold live no_throw by simp
          show ?thesis
            using c4 by (simp add: eq) (simp add: success_def)
        next
          case False
          then have "streamAttempt e i st s = s4"
            using unfold live no_throw by simp
          then show ?thesis
            using c4 p4 by simp
        qed
      qed
    qed
  qed
qed

lemma loopBody_cancel:
  assumes c: "cancelInv s" and q: "quietInv g s" and e: "successes s = []"
  shows "cancelInv (loopBody mode e s) \<and> quietInv g (loopBody mode e s)"
proof -
  from q e have pool: "list_all2 noSuccessRecorded (trackedServices g) (trackedServices (gw s))"
    by (simp add: quietInv_def)
  define sel where "sel = getNextService (clock s) (random e) (triedIndices s) mode (gw s)"
  define s1 where "s1 = s\<lparr>gw := snd sel, selectorCalls := selectorCalls s + 1\<rparr>"
  have c1: "cancelInv s1" using c by (simp add: s1_def cancelInv_def)
  have e1: "successes s1 = []" using e by (simp add: s1_def)
  have "list_all2 noSuccessRecorded (trackedServices (gw s)) (trackedServices (gw s1))"
    by (simp add: s1_def sel_def)
  with pool have p1: "list_all2 noSuccessRecorded (trackedServices g) (trackedServices (gw s1))"
    by (rule nst_pool_trans)
  show ?thesis
  proof (cases "fst sel")
    case None
    define s2 where "s2 = sleep (calculateBackoffDelay (attemptNumber s1)) e s1"
    define rp where "rp = reprobe (clock s2) (triedIndices s2) 0 (trackedServices (gw s2))"
    define s3 where "s3 = s2\<lparr>gw := (gw s2)\<lparr>trackedServices := snd rp\<rparr>\<rparr>"
    have c3: "cancelInv s3"
      using cancelInv_sleep [OF c1, of "calculateBackoffDelay (attemptNumber s1)" e]
      by (simp add: s3_def s2_def cancelInv_def)
    have "list_all2 noSuccessRecorded (trackedServices (gw s1)) (trackedServices (gw s3))"
      by (simp add: s3_def rp_def s2_def)
    with p1 have p3: "list_all2 noSuccessRecorded (trackedServices g) (trackedServices (gw s3))"
      by (rule nst_pool_trans)
    have "loopBody mode e s =
        (if attemptNumber s1 > 0 then (if \<not> fst rp then s3\<lparr>running := False\<rparr> else s3)
         else s1\<lparr>running := False\<rparr>)"
      using None unfolding loopBody_def sel_def s1_def s2_def rp_def s3_def
      by (auto simp: split_beta Let_def)
    then show ?thesis
      using c1 c3 p1 p3 by (simp add: quietInv_def)
  next
    case (Some i)
    define s2 where "s2 = s1\<lparr>attemptNumber := attemptNumber s1 + 1,
                               triedIndices := insert i (triedIndices s1)\<rparr>"
    define s3 where "s3 = (if attemptNumber s2 > 1
                           then sleep (calculateBackoffDelay (attemptNumber s2 - 1)) e s2 else s2)"
    define s4 where "s4 = s3\<lparr>gw := updateTracked i (beginAttempt True) (gw s3),
                               dispatched := dispatched s3 @ [i]\<rparr>"
    have c2: "cancelInv s2" using c1 by (simp add: s2_def cancelInv_def)
    have c3: "cancelInv s3"
      using c2 cancelInv_sleep [OF c2, of "calculateBackoffDelay (attemptNumber s2 - 1)" e]
      by (simp add: s3_def)
    have c4: "cancelInv s4" using c3 by (simp add: s4_def cancelInv_def)
    have e4: "successes s4 = []" using e1 by (simp add: s4_def s3_def s2_def)
    have "trackedServices (gw s3) = trackedServices (gw s1)"
      by (simp add: s3_def s2_def)
    moreover have "list_all2 noSuccessRecorded (trackedServices (gw s3)) (trackedServices (gw s4))"
      using nst_updateTracked [of "beginAttempt True" "gw s3" i] by (simp add: s4_def)
    ultimately have p4: "list_all2 noSuccessRecorded (trackedServices g) (trackedServices (gw s4))"
      using p1 by (auto intro: nst_pool_trans)
    have body: "loopBody mode e s = streamAttempt e i (clock s3) s4"
      using Some unfolding loopBody_def sel_def s1_def s2_def s3_def s4_def
      by (auto simp: split_beta Let_def)
    from streamAttempt_cancel [OF c4 e4, of e i "clock s3"] p4 show ?thesis
      unfolding body quietInv_def by (auto intro: nst_pool_trans)
  qed
qed

lemma step_cancel:
  assumes "requestInv g s" and "cancelInv s" and "quietInv g s"
  shows "cancelInv (step mode e s) \<and> quietInv g (step mode e s)"
proof (cases "running s \<and> loopCond s")
  case False
  then have "step mode e s = s \<or> step mode e s = s\<lparr>running := False\<rparr>"
    by (auto simp: step_def)
  then show ?thesis using assms(2,3) by (auto simp: quietInv_def)
next
  case True
  then have body: "step mode e s = loopBody mode e s"
    by (simp add: step_def)
  from True assms(1) have "successes s = []"
    by (auto simp: requestInv_def)
  from loopBody_cancel [OF assms(2,3) this, of mode e] show ?thesis
    by (simp add: body)
qed

lemma run_cancel:
  assumes "requestInv g s" and "cancelInv s" and "quietInv g s"
  shows "cancelInv (run mode es s) \<and> quietInv g (run mode es s)"
  using assms
proof (induction es arbitrary: s)
  case Nil
  then show ?case by (simp add: run_def)
next
  case (Cons e es)
  from step_effect [OF Cons.prems(1), of mode e] have "requestInv g (step mode e s)" by simp
  moreover from step_cancel [OF Cons.prems, of mode e]
  have "cancelInv (step mode e s)" "quietInv g (step mode e s)" by simp_all
  ultimately show ?case
    using Cons.IH [of "step mode e s"] by (simp add: run_Cons)
qed

lemma cancel_start: "cancelInv (startRequest now g) \<and> quietInv g (startRequest now g)"
  by (simp add: cancelInv_def quietInv_def startRequest_def)

lemma lateGoneRun_value:
  "cancelledBeforeCommit lateGoneRun \<and> dispatched lateGoneRun = [0]"
  by (simp add: lateGoneRun_def lateGoneEnv_def twoServices_def loop_defs getNextService_def
        example_defs isServiceAvailable_CLOSED Let_def)

lemma goneRun_cancelled: "cancelledBeforeCommit goneRun"
  by (simp add: goneRun_def goneEnv_def twoServices_def loop_defs getNextService_def
        example_defs isServiceAvailable_CLOSED Let_def bonus_def toLowerCase_def
        toLowerChar_def calculateHealthScore_def config_defs)

text \<open>
  Claim C8, as the code has it. A client goes away before commit when an abort or a
  cancellation arrives while \<open>started\<close> is false, at whichever await of a pass; the
  observation \<open>cancelledBeforeCommit\<close> records that moment. For every streaming request:
  this has happened exactly when the request is aborted and has not committed, so such a
  request never commits (every later test of \<open>aborted\<close> stops it first), now or in any
  later pass; and a request that has not committed has recorded no success: no success
  counter has changed, no breaker's failure counter has gone down and no breaker has moved
  into CLOSED. (A request cancelled after it has committed can record a success: see the
  example below.)
\<close>

theorem cancelled_before_commit:
  "(cancelledBeforeCommit (run mode es (startRequest now g))
      \<longleftrightarrow> aborted (run mode es (startRequest now g))
            \<and> \<not> started (run mode es (startRequest now g)))
   \<and> (\<not> started (run mode es (startRequest now g)) \<longrightarrow>
        successes (run mode es (startRequest now g)) = []
        \<and> list_all2 noSuccessRecorded (trackedServices g)
             (trackedServices (gw (run mode es (startRequest now g)))))
   \<and> (cancelledBeforeCommit (run mode es (startRequest now g)) \<longrightarrow>
        cancelledBeforeCommit (run mode (es @ es') (startRequest now g)))"
proof -
  define s where "s = run mode es (startRequest now g)"
  define s' where "s' = run mode (es @ es') (startRequest now g)"
  have inv: "requestInv g s"
    using run_effect [OF requestInv_start, of g mode es now] by (simp add: s_def)
  have cq: "cancelInv s" "quietInv g s"
    using run_cancel [OF requestInv_start, of now g mode es] cancel_start [of now g]
    by (simp_all add: s_def)
  have cq': "cancelInv s'"
    using run_cancel [OF requestInv_start, of now g mode "es @ es'"] cancel_start [of now g]
    by (simp add: s'_def)
  have flag: "cancelledBeforeCommit s \<longleftrightarrow> aborted s \<and> \<not> started s"
    using cq(1) by (auto simp: cancelInv_def)
  have quiet: "successes s = []
      \<and> list_all2 noSuccessRecorded (trackedServices g) (trackedServices (gw s))"
    if "\<not> started s"
  proof -
    from inv that have "successes s = []" by (auto simp: requestInv_def)
    with cq(2) show ?thesis by (simp add: quietInv_def)
  qed
  have sticky: "cancelledBeforeCommit s'" if "cancelledBeforeCommit s"
  proof -
    from that flag have "aborted s" "\<not> started s" by simp_all
    from aborted_uncommitted_run [OF this, of mode es']
    have "aborted s' \<and> \<not> started s'" by (simp add: s'_def s_def run_append)
    with cq' show ?thesis by (auto simp: cancelInv_def)
  qed
  from flag quiet sticky show ?thesis
    unfolding s_def s'_def by blast
qed

theorem cancelled_before_commit_witness:
  "cancelledBeforeCommit lateGoneRun \<and> aborted lateGoneRun \<and> \<not> started lateGoneRun
   \<and> successes lateGoneRun = []
   \<and> list_all2 noSuccessRecorded (trackedServices twoServices) (trackedServices (gw lateGoneRun))
   \<and> cancelledBeforeCommit (run RoundRobin ([lateGoneEnv] @ [helloEnv]) (startRequest 1000 twoServices))
   \<and> cancelledBeforeCommit goneRun \<and> \<not> started goneRun \<and> successes goneRun = []
   \<and> list_all2 noSuccessRecorded (trackedServices twoServices) (trackedServices (gw goneRun))"
  using cancelled_before_commit [of RoundRobin "[lateGoneEnv]" 1000 twoServices "[helloEnv]"]
    cancelled_before_commit [of Smart "[goneEnv]" 1000 twoServices "[]"]
    lateGoneRun_value goneRun_cancelled
  by (simp add: lateGoneRun_def [symmetric] goneRun_def [symmetric])

text \<open>
  The claim as stated fails for a request that is cancelled after it has committed: the
  response stream is cancelled after the first chunk, the loop leaves the stream at the
  next chunk, and the service's success counter is incremented and its breaker takes the
  success transition (its failure counter goes from 1 to 0).
\<close>

theorem success_after_cancel_counterexample:
  "aborted cancelledRun \<and> started cancelledRun \<and> successes cancelledRun = [0]
   \<and> successCount (metrics (trackedServices (gw cancelledRun) ! 0)) = 1
   \<and> failures (circuitBreaker (trackedServices (gw cancelledRun) ! 0)) = 0
   \<and> successCounts (gw (startRequest 1000 (newGateway [withBreaker CLOSED 1 None 0]))) = [0]
   \<and> failures (circuitBreaker (withBreaker CLOSED 1 None 0)) = 1"
  using cancelledRun_value by (simp add: startRequest_def successCounts_def example_defs)

subsection \<open>Message validation\<close>

lemma objectLike: "jsTruthy v \<and> typeofObject v \<longleftrightarrow> (\<exists>ms. v = JObject ms) \<or> (\<exists>xs. v = JArray xs)"
  by (cases v) simp_all

lemma isValidPart_iff: "isValidPart p \<longleftrightarrow> isTextPart p \<or> isImageUrlPart p"
proof (cases p)
  case (JObject members)
  show ?thesis
  proof (cases "getProp p ''type'' = Some (JString ''text'')")
    case True
    then show ?thesis
      using JObject
      by (auto simp: isValidPart_def isTextPart_def isImageUrlPart_def
            split: option.splits json.splits)
  next
    case False
    then show ?thesis
      using JObject objectLike
      by (auto simp: isValidPart_def isTextPart_def isImageUrlPart_def
            split: option.splits json.splits)
  qed
qed (simp_all add: isValidPart_def isTextPart_def isImageUrlPart_def)

lemma isValidMessage_iff: "isValidMessage m \<longleftrightarrow> validMessage m"
proof (cases m)
  case (JObject members)
  then show ?thesis
    by (auto simp: isValidMessage_def validMessage_def validRoles_def list_all_iff
          isValidPart_iff split: option.splits json.splits)
qed (simp_all add: isValidMessage_def validMessage_def)

lemma nonStreamLoop_status:
  "nonStreamLoop mode es tried attemptNo now g = Some (code, g') \<Longrightarrow> code = 200 \<or> code = 502"
  by (induction mode es tried attemptNo now g rule: nonStreamLoop.induct)
     (auto simp: Let_def split: if_splits option.splits prod.splits CompletionResult.splits)

lemma failover_status:
  "failover env req body g = Some (r, g') \<Longrightarrow> status r \<noteq> 400"
  by (auto simp: failover_def Let_def jsonOk_def jsonError_def eventStream_def
        split: if_splits option.splits prod.splits dest: nonStreamLoop_status)

lemma chatCompletions_validated:
  assumes "reqBody req = Some body" and "body \<noteq> JNull"
  shows "chatCompletions env req g =
           (if validMessages body
            then failover env req body (g\<lparr>inFlightRequests := inFlightRequests g + 1\<rparr>)
            else Some (jsonError 400 ''invalid_request_error'', g))"
proof -
  have valid: "validMessages body \<longleftrightarrow>
      (case getProp body ''messages'' of
         Some (JArray messages) \<Rightarrow> list_all isValidMessage messages
       | _ \<Rightarrow> False)"
    by (auto simp: validMessages_def list_all_iff isValidMessage_iff
          split: option.splits json.splits)
  have same: "(g\<lparr>inFlightRequests := inFlightRequests g + 1\<rparr>)\<lparr>inFlightRequests := inFlightRequests g\<rparr> = g"
    by simp
  show ?thesis
    using assms same unfolding valid
    by (cases body) (auto simp: chatCompletions_def Let_def split: option.splits json.splits)
qed

text \<open>
  Claim C10. For a chat request whose body parses to a value other than \<^verbatim>\<open>null\<close>:
  the handler answers with status 400, and the in-flight counter as it was, exactly when
  the body's \<^verbatim>\<open>messages\<close> member is not an array or some element of it is not a valid
  message; otherwise the request goes on to the failover loop (streaming or not), whose
  responses never have status 400. The empty array passes: no element of it is invalid.
\<close>

theorem message_validation:
  assumes "reqBody req = Some body" and "body \<noteq> JNull"
  shows "(\<not> validMessages body \<longrightarrow>
            chatCompletions env req g = Some (jsonError 400 ''invalid_request_error'', g))
       \<and> (validMessages body \<longrightarrow>
            chatCompletions env req g
              = failover env req body (g\<lparr>inFlightRequests := inFlightRequests g + 1\<rparr>))
       \<and> (\<forall>r g'. chatCompletions env req g = Some (r, g') \<longrightarrow>
             (status r = 400 \<longleftrightarrow> \<not> validMessages body))
       \<and> (getProp body ''messages'' = Some (JArray []) \<longrightarrow> validMessages body)"
proof -
  note split = chatCompletions_validated [OF assms, of env g]
  have code: "status r = 400 \<longleftrightarrow> \<not> validMessages body"
    if "chatCompletions env req g = Some (r, g')" for r g'
  proof (cases "validMessages body")
    case True
    with split that
    have "failover env req body (g\<lparr>inFlightRequests := inFlightRequests g + 1\<rparr>) = Some (r, g')"
      by simp
    then have "status r \<noteq> 400" by (rule failover_status)
    with True show ?thesis by simp
  next
    case False
    with split that show ?thesis by (auto simp: jsonError_def)
  qed
  have empty: "validMessages body" if "getProp body ''messages'' = Some (JArray [])"
    using that by (simp add: validMessages_def)
  from split code empty show ?thesis by simp
qed

theorem message_validation_witness:
  "chatCompletions quietEnv (chatRequest (Some (JObject [(''messages'', JArray [])]))) twoServices
     = failover quietEnv (chatRequest (Some (JObject [(''messages'', JArray [])])))
         (JObject [(''messages'', JArray [])]) (twoServices\<lparr>inFlightRequests := 1\<rparr>)
   \<and> chatCompletions quietEnv (chatRequest (Some (JObject [(''messages'', JArray [JNull])])))
       twoServices
     = Some (jsonError 400 ''invalid_request_error'', twoServices)
   \<and> chatCompletions quietEnv (chatRequest (Some (JObject [(''massages'', JArray [])])))
       twoServices
     = Some (jsonError 400 ''invalid_request_error'', twoServices)"
proof -
  let ?ok = "JObject [(''messages'', JArray [])]"
  let ?bad = "JObject [(''messages'', JArray [JNull])]"
  let ?none = "JObject [(''massages'', JArray [])]"
  have body: "reqBody (chatRequest (Some b)) = Some b" for b
    by (simp add: chatRequest_def)
  have one: "inFlightRequests twoServices + 1 = 1"
    by (simp add: twoServices_def newGateway_def)
  note ok = message_validation [OF body, of ?ok quietEnv twoServices]
  note bad = message_validation [OF body, of ?bad quietEnv twoServices]
  note none = message_validation [OF body, of ?none quietEnv twoServices]
  have "validMessages ?ok"
    by (rule ok [THEN conjunct2, THEN conjunct2, THEN conjunct2, THEN mp]) simp_all
  then have 1: "chatCompletions quietEnv (chatRequest (Some ?ok)) twoServices
     = failover quietEnv (chatRequest (Some ?ok)) ?ok (twoServices\<lparr>inFlightRequests := 1\<rparr>)"
    using ok [THEN conjunct2, THEN conjunct1] by (simp only: one simp_thms json.distinct)
  have "\<not> validMessages ?bad"
    by (simp add: validMessages_def validMessage_def)
  then have 2: "chatCompletions quietEnv (chatRequest (Some ?bad)) twoServices
     = Some (jsonError 400 ''invalid_request_error'', twoServices)"
    using bad [THEN conjunct1] by (simp only: simp_thms json.distinct)
  have "\<not> validMessages ?none"
    by (simp add: validMessages_def)
  then have 3: "chatCompletions quietEnv (chatRequest (Some ?none)) twoServices
     = Some (jsonError 400 ''invalid_request_error'', twoServices)"
    using none [THEN conjunct1] by (simp only: simp_thms json.distinct)
  show ?thesis
    by (simp only: 1 2 3 simp_thms)
qed

subsection \<open>The in-flight counter\<close>

lemma owed_frames [simp]:
  "owed (decrementInFlight s) = owed s"
  "owed (interrupt i s) = owed s"
  "owed (s\<lparr>clock := c\<rparr>) = owed s"
  "owed (s\<lparr>sleeps := n\<rparr>) = owed s"
  "owed (s\<lparr>started := b\<rparr>) = owed s"
  "owed (s\<lparr>running := b\<rparr>) = owed s"
  "owed (s\<lparr>selectorCalls := n\<rparr>) = owed s"
  "owed (s\<lparr>attemptNumber := a\<rparr>) = owed s"
  "owed (s\<lparr>triedIndices := t\<rparr>) = owed s"
  "owed (s\<lparr>dispatched := d\<rparr>) = owed s"
  "owed (s\<lparr>successes := d\<rparr>) = owed s"
  "owed (s\<lparr>aborted := b\<rparr>) = owed s"
  "inFlightRequests g' = inFlightRequests (gw s) \<Longrightarrow> owed (s\<lparr>gw := g'\<rparr>) = owed s"
  by (cases i; simp add: owed_def decrementInFlight_def)+

lemma owed_interrupts [simp]: "owed (interrupts is s) = owed s"
  unfolding interrupts_def by (induction "is" arbitrary: s) simp_all

lemma owed_sleep [simp]: "owed (sleep ms e s) = owed s"
  by (simp add: sleep_def)

lemma owed_forAwait [simp]: "owed (snd (forAwait evs s)) = owed s"
  by (induction evs s rule: forAwait.induct) simp_all

lemma owed_success [simp]: "owed (success i st s) = owed s"
  by (simp add: success_def)

lemma owed_catchError [simp]: "owed (catchError msg i st s) = owed s"
  by (simp add: catchError_def Let_def)

lemma owed_streamAttempt [simp]: "owed (streamAttempt e i st s) = owed s"
  by (cases "firstResult e") (simp_all add: streamAttempt_def Let_def split_beta)

lemma owed_loopBody [simp]: "owed (loopBody mode e s) = owed s"
proof -
  define sel where "sel = getNextService (clock s) (random e) (triedIndices s) mode (gw s)"
  have "inFlightRequests (snd sel) = inFlightRequests (gw s)"
    by (simp add: sel_def)
  then show ?thesis
    unfolding loopBody_def sel_def [symmetric]
    by (cases "fst sel") (simp_all add: split_beta Let_def)
qed

lemma owed_step [simp]: "owed (step mode e s) = owed s"
  by (simp add: step_def)

lemma owed_run [simp]: "owed (run mode es s) = owed s"
  by (induction es arbitrary: s) (simp_all add: run_def)

lemma streamStart_in_flight:
  assumes "streamStart mode es (startRequest now g) = Some s"
  shows "inFlightRequests (gw s) = inFlightRequests g - 1 \<and> hasDecrementedInFlight s"
proof -
  define s' where "s' = run mode es (startRequest now g)"
  have "owed s' = inFlightRequests g"
    by (simp add: s'_def) (simp add: owed_def startRequest_def)
  moreover have "s = decrementInFlight s'"
    using assms by (simp add: streamStart_def s'_def Let_def split: if_splits)
  ultimately show ?thesis
    by (auto simp: owed_def decrementInFlight_def split: if_splits)
qed

lemma getNextService_in_flight:
  "getNextService now rnd ex mode g = (r, g') \<Longrightarrow> inFlightRequests g' = inFlightRequests g"
  using getNextService_frame(3) [of now rnd ex mode g] by simp

lemma nonStreamLoop_in_flight:
  "nonStreamLoop mode es tried attemptNo now g = Some (code, g')
     \<Longrightarrow> inFlightRequests g' = inFlightRequests g"
proof (induction mode es tried attemptNo now g rule: nonStreamLoop.induct)
  case (1 routingMode tried attemptNo now g)
  then show ?case by (simp split: if_splits)
next
  case (2 routingMode e es tried attemptNo now g)
  show ?case
  proof (cases "card tried < length (trackedServices g)")
    case False
    with "2.prems" show ?thesis by simp
  next
    case True
    obtain r g1 where sel: "getNextService now (nsRandom e) tried routingMode g = (r, g1)"
      by (cases "getNextService now (nsRandom e) tried routingMode g") blast
    note fl = getNextService_in_flight [OF sel]
    show ?thesis
    proof (cases r)
      case None
      with "2.prems" True fl sel show ?thesis by auto
    next
      case (Some i)
      show ?thesis
      proof (cases "nsResult e")
        case Completed
        with "2.prems" True Some fl sel show ?thesis by (auto simp: Let_def)
      next
        case (Failed msg)
        from "2.IH" [OF _ sel [symmetric] Some refl refl refl refl refl Failed] True
        show ?thesis
          using "2.prems" Some fl Failed sel by (simp add: Let_def)
      qed
    qed
  qed
qed

lemma failover_in_flight:
  assumes "failover env req body g = Some (r, g')"
  shows "inFlightRequests g' =
           (if getProp body ''stream'' = Some (JBool False)
            then inFlightRequests g else inFlightRequests g - 1)"
proof (cases "getProp body ''stream'' = Some (JBool False)")
  case True
  with assms show ?thesis
    by (auto simp: failover_def Let_def split: option.splits prod.splits
          dest: nonStreamLoop_in_flight)
next
  case False
  with assms show ?thesis
    by (auto simp: failover_def Let_def split: option.splits dest: streamStart_in_flight)
qed

lemma shutdown_rejects:
  "isShuttingDown g \<Longrightarrow> fetch env req g = Some (shuttingDownResponse, g)"
  by (simp add: fetch_def)

lemma chatCompletions_in_flight:
  assumes "chatCompletions env req g = Some (r, g')"
  shows "inFlightRequests g' =
           (if status r \<in> {400, 500} then inFlightRequests g
            else if Option.bind (reqBody req) (\<lambda>b. getProp b ''stream'') = Some (JBool False)
            then inFlightRequests g + 1
            else inFlightRequests g)"
proof (cases "reqBody req")
  case None
  with assms show ?thesis by (auto simp: chatCompletions_def jsonError_def)
next
  case (Some body)
  show ?thesis
  proof (cases "body = JNull")
    case True
    with assms Some show ?thesis by (auto simp: chatCompletions_def jsonError_def)
  next
    case False
    note split = chatCompletions_validated [OF Some False, of env g]
    show ?thesis
    proof (cases "validMessages body")
      case True
      with split assms have f: "failover env req body (g\<lparr>inFlightRequests := inFlightRequests g + 1\<rparr>)
                              = Some (r, g')"
        by simp
      then have "status r \<noteq> 400"
        by (rule failover_status)
      moreover have "status r \<noteq> 500"
        using f
        by (auto simp: failover_def Let_def jsonOk_def jsonError_def eventStream_def
              split: if_splits option.splits prod.splits dest: nonStreamLoop_status)
      ultimately show ?thesis
        using failover_in_flight [OF f] Some by simp
    next
      case False
      with split assms show ?thesis by (auto simp: jsonError_def)
    qed
  qed
qed

text \<open>
  Claim C9 at concrete requests. A chat request that asks for no streaming
  (\<^verbatim>\<open>"stream": false\<close>) increments the in-flight counter and never decrements it:
  after the response, 200 when an upstream completed and 502 when all failed, the counter
  that was 0 before the request is 1. (Lemma \<open>chatCompletions_in_flight\<close>: this is so
  for every non-streaming request that reaches the loop, while rejected requests and
  streaming requests whose loop ends leave the counter as it was; lemma
  \<open>shutdown_rejects\<close>: while shutting down, every request is answered with 503 and
  \<^verbatim>\<open>Retry-After: 30\<close>, and nothing changes.)
\<close>

lemmas server_defs = fetch_def chatCompletions_def failover_def routingModeOf_def chatRequest_def
  jsonOk_def jsonError_def eventStream_def shuttingDownResponse_def toLowerCase_def
  toLowerChar_def isValidMessage_def isValidPart_def validRoles_def userMessage_def

theorem non_streaming_leaks_in_flight:
  "map_option (\<lambda>(r, g'). (status r, inFlightRequests g'))
     (fetch quietEnv nonStreamingRequest twoServices) = Some (200, 1)
   \<and> map_option (\<lambda>(r, g'). (status r, inFlightRequests g'))
       (fetch failingEnv nonStreamingRequest twoServices) = Some (502, 1)
   \<and> inFlightRequests twoServices = 0"
  by (simp add: server_defs nonStreamingRequest_def quietEnv_def failingEnv_def completedEnv_def
        failedEnv_def twoServices_def example_defs getNextService_def isServiceAvailable_CLOSED
        updateTracked_def beginAttempt_def onSuccess_def onFailure_def recordSuccess_def
        recordFailure_def Let_def config_defs)

end
